theory Spec2Isabelle
  imports Main "HOL-Library.Word"
begin

section \<open>The collaborators of write_body_threads\<close>

text \<open>
  \<^verbatim>\<open>write_body_threads\<close> (write_body_threads.hpp, lines 19-67) is a template over its
  chunk source and talks to three collaborators: the formatter, the thread pool with its
  futures, and the output stream. The coordinator itself runs on one thread; the only
  thing that happens concurrently is that workers finish submitted tasks.
\<close>

datatype exn = Worker_failure string | Ios_failure

text \<open>
  A work item is the callable that \<^verbatim>\<open>next_chunk\<close> returns. Calling it on a worker
  either returns the chunk's bytes (\<open>Inr\<close>) or raises (\<open>Inl\<close>, with the message).
\<close>

type_synonym work_item = "string + string"

text \<open>
  Modelled from the spec: the FORMATTER template argument (the chunk source), which is
  not part of write_body_threads.hpp. It is a sequential generator: \<^verbatim>\<open>has_next()\<close>
  tells whether a chunk is left, \<^verbatim>\<open>next_chunk(options)\<close> hands out the next work
  item and consumes one unit of progress. The state of a formatter is the list of work
  items it has not handed out yet.
\<close>

type_synonym formatter = "work_item list"

definition has_next :: "formatter \<Rightarrow> bool" where
  "has_next fmt = (fmt \<noteq> [])"

text \<open>
  Modelled from the spec: \<^verbatim>\<open>next_chunk\<close> on an exhausted source is a contract
  violation (\<open>None\<close>).
\<close>

definition next_chunk :: "formatter \<Rightarrow> (work_item \<times> formatter) option" where
  "next_chunk fmt = (case fmt of [] \<Rightarrow> None | c # rest \<Rightarrow> Some (c, rest))"

text \<open>
  Modelled from the spec: the thread pool and its futures (BS_thread_pool_light.hpp and
  \<^verbatim>\<open>is_ready\<close> are not part of write_body_threads.hpp). \<^verbatim>\<open>submit\<close> returns a
  handle that is not ready; a worker makes it ready at some later time of its own
  choosing; \<^verbatim>\<open>get\<close> on a ready handle returns the bytes or re-raises the worker's
  failure, and on a handle that is not ready it blocks (\<open>None\<close>). The \<open>task_id\<close> is
  the number of tasks the pool had accepted before this one.
\<close>

record future =
  task_id :: nat
  work :: work_item
  ready :: bool

definition submit :: "nat \<Rightarrow> work_item \<Rightarrow> future" where
  "submit n w = \<lparr>task_id = n, work = w, ready = False\<rparr>"

definition is_ready :: "future \<Rightarrow> bool" where
  "is_ready f = ready f"

definition get :: "future \<Rightarrow> work_item option" where
  "get f = (if ready f then Some (work f) else None)"

definition finish :: "nat \<Rightarrow> future \<Rightarrow> future" where
  "finish i f = (if task_id f = i then f\<lparr>ready := True\<rparr> else f)"

text \<open>
  Modelled from the spec: the number of threads the pool reports
  (\<^verbatim>\<open>pool.get_thread_count()\<close>, line 41) when it was built from a configured worker
  count (\<^verbatim>\<open>options.num_threads\<close>, line 36). The worker count is at least 0, and a
  pool configured with 0 counts as one worker.
\<close>

definition pool_thread_count :: "32 word \<Rightarrow> 32 word" where
  "pool_thread_count num_threads = (if num_threads = 0 then 1 else num_threads)"

text \<open>
  \<^verbatim>\<open>std::ostream\<close>, as far as \<^verbatim>\<open>os.write\<close> needs it: the bytes the device has
  taken, the number of bytes it still takes (\<open>None\<close>: no limit), the three bits of the
  stream's state (\<^verbatim>\<open>rdstate()\<close>), and the three bits of its exception mask
  (\<^verbatim>\<open>exceptions()\<close>). The stream has no tied stream and \<^verbatim>\<open>unitbuf\<close> is off, so
  that \<^verbatim>\<open>os.write\<close> flushes nothing.

  \<^verbatim>\<open>good()\<close> holds if no bit of the state is set. \<^verbatim>\<open>setstate(bit)\<close> sets the bit and
  then throws \<^verbatim>\<open>ios_base::failure\<close> if and only if the state and the mask have a bit in
  common (\<open>throws\<close>), whichever bit that is.
\<close>

datatype sentry_policy = Never | If_bad | If_not_good

record ostream =
  written :: string
  room :: "nat option"
  badbit :: bool
  failbit :: bool
  eofbit :: bool
  except_badbit :: bool
  except_failbit :: bool
  except_eofbit :: bool
  sentry :: sentry_policy

definition good :: "ostream \<Rightarrow> bool" where
  "good os \<longleftrightarrow> \<not> badbit os \<and> \<not> failbit os \<and> \<not> eofbit os"

definition throws :: "ostream \<Rightarrow> bool" where
  "throws os \<longleftrightarrow>
     badbit os \<and> except_badbit os \<or> failbit os \<and> except_failbit os \<or>
     eofbit os \<and> except_eofbit os"

definition setstate_badbit :: "ostream \<Rightarrow> ostream \<times> exn option" where
  "setstate_badbit os =
     (let os' = os\<lparr>badbit := True\<rparr>
      in (os', if throws os' then Some Ios_failure else None))"

definition setstate_failbit :: "ostream \<Rightarrow> ostream \<times> exn option" where
  "setstate_failbit os =
     (let os' = os\<lparr>failbit := True\<rparr>
      in (os', if throws os' then Some Ios_failure else None))"

text \<open>
  \<^verbatim>\<open>ostream::write\<close> is an unformatted output function: it constructs a sentry and
  writes only if the sentry is ok, which it is exactly on a good stream. The standard
  allows the sentry's constructor to call \<^verbatim>\<open>setstate(failbit)\<close>, and libraries
  differ in when it does: never, on a stream whose \<^verbatim>\<open>badbit\<close> is set (libstdc++), or
  on every stream that is not good. The library's choice is the field \<open>sentry\<close> of the
  stream.
\<close>

definition sentry_sets_failbit :: "ostream \<Rightarrow> bool" where
  "sentry_sets_failbit os =
     (case sentry os of Never \<Rightarrow> False | If_bad \<Rightarrow> badbit os | If_not_good \<Rightarrow> True)"

text \<open>
  On a good stream characters are inserted until all are inserted or the device refuses
  one, which it does by taking fewer characters than it is offered; in that case
  \<^verbatim>\<open>setstate(badbit)\<close> is called. The return value of \<^verbatim>\<open>os.write\<close> is the stream
  itself, which line 61 discards.
\<close>

definition os_write :: "ostream \<Rightarrow> string \<Rightarrow> ostream \<times> exn option" where
  "os_write os s =
     (if good os
      then case room os of
             None \<Rightarrow> (os\<lparr>written := written os @ s\<rparr>, None)
           | Some r \<Rightarrow>
               if length s \<le> r
               then (os\<lparr>written := written os @ s, room := Some (r - length s)\<rparr>, None)
               else setstate_badbit (os\<lparr>written := written os @ take r s, room := Some 0\<rparr>)
      else if sentry_sets_failbit os then setstate_failbit os
      else (os, None))"

section \<open>The coordinator\<close>

text \<open>
  Line 41: \<^verbatim>\<open>const int inflight_count = 3 * (int)pool.get_thread_count();\<close>
  Line 36 builds the pool from \<^verbatim>\<open>options.num_threads\<close>; how many threads the pool
  then reports is the pool's own choice, so the reported count \<open>thread_count\<close> is a
  parameter of the model (\<open>pool_thread_count\<close> is the pool's choice according to the
  specification). The pool reports an \<^verbatim>\<open>unsigned int\<close>. The cast reads it
  as two's complement, and the product is a signed 32-bit multiplication, whose overflow
  is undefined (\<open>None\<close>).
\<close>

definition INT_MAX :: int where
  "INT_MAX = 2147483647"

definition INT_MIN :: int where
  "INT_MIN = - 2147483648"

definition inflight_count_of :: "32 word \<Rightarrow> int option" where
  "inflight_count_of thread_count =
     (let n = 3 * sint thread_count
      in if INT_MIN \<le> n \<and> n \<le> INT_MAX then Some n else None)"

text \<open>
  The places of the coordinator's control, by source line, and its observable calls.
  A run that reaches \<open>Undefined\<close> stops there: the model follows the program up to
  undefined behaviour and not beyond it.
\<close>

datatype pc =
    Prime_test      \<comment> \<open>line 44, the condition of the for loop\<close>
  | Prime_body      \<comment> \<open>line 45\<close>
  | Drain_test      \<comment> \<open>line 49, the condition of the while loop\<close>
  | Poll            \<comment> \<open>line 50\<close>
  | Refill_test     \<comment> \<open>line 54\<close>
  | Refill_body     \<comment> \<open>line 55\<close>
  | Get_front       \<comment> \<open>line 59\<close>
  | Pop_front       \<comment> \<open>line 60\<close>
  | Write_chunk     \<comment> \<open>line 61\<close>
  | Yield_cpu       \<comment> \<open>line 64\<close>
  | Returned        \<comment> \<open>line 67\<close>
  | Thrown exn      \<comment> \<open>an exception left the function\<close>
  | Contract_violation \<comment> \<open>\<^verbatim>\<open>next_chunk\<close> on an exhausted source\<close>
  | Undefined       \<comment> \<open>undefined behaviour: signed overflow, \<^verbatim>\<open>front\<close> or \<^verbatim>\<open>pop\<close> on an empty queue\<close>

datatype event =
    Has_next bool
  | Next_chunk
  | Submit nat
  | Is_ready nat bool
  | Get nat
  | Pop
  | Write string
  | Yield

record state =
  inflight_count :: int
  batch_i :: int
  formatter :: formatter
  submitted :: nat
  futures :: "future list"
  chunk :: string
  os :: ostream
  pc :: pc
  trace :: "event list"

definition init :: "32 word \<Rightarrow> formatter \<Rightarrow> ostream \<Rightarrow> state" where
  "init thread_count fmt out =
     \<lparr>inflight_count = (case inflight_count_of thread_count of None \<Rightarrow> 0 | Some n \<Rightarrow> n),
      batch_i = 0,
      formatter = fmt,
      submitted = 0,
      futures = [],
      chunk = [],
      os = out,
      pc = (case inflight_count_of thread_count of None \<Rightarrow> Undefined | Some n \<Rightarrow> Prime_test),
      trace = []\<rparr>"

text \<open>
  \<^verbatim>\<open>futures.push(pool.submit(formatter.next_chunk(options)))\<close>, lines 45 and 55.
\<close>

definition push_next :: "state \<Rightarrow> state" where
  "push_next s =
     (case next_chunk (formatter s) of
        None \<Rightarrow> s\<lparr>pc := Contract_violation\<rparr>
      | Some (w, fmt') \<Rightarrow>
          s\<lparr>formatter := fmt',
            futures := futures s @ [submit (submitted s) w],
            submitted := Suc (submitted s),
            trace := trace s @ [Next_chunk, Submit (submitted s)]\<rparr>)"

text \<open>One step of the coordinating thread: the statement at \<open>pc s\<close>.\<close>

definition coordinator :: "state \<Rightarrow> state" where
  "coordinator s =
     (case pc s of
        Prime_test \<Rightarrow>
          if batch_i s < inflight_count s
          then s\<lparr>pc := (if has_next (formatter s) then Prime_body else Drain_test),
                 trace := trace s @ [Has_next (has_next (formatter s))]\<rparr>
          else s\<lparr>pc := Drain_test\<rparr>
      | Prime_body \<Rightarrow>
          (let s' = push_next s
           in if pc s' = Contract_violation then s'
              else s'\<lparr>batch_i := batch_i s + 1, pc := Prime_test\<rparr>)
      | Drain_test \<Rightarrow>
          if futures s = [] then s\<lparr>pc := Returned\<rparr> else s\<lparr>pc := Poll\<rparr>
      | Poll \<Rightarrow>
          (case futures s of
             [] \<Rightarrow> s\<lparr>pc := Undefined\<rparr>
           | f # _ \<Rightarrow>
               s\<lparr>pc := (if is_ready f then Refill_test else Yield_cpu),
                 trace := trace s @ [Is_ready (task_id f) (is_ready f)]\<rparr>)
      | Refill_test \<Rightarrow>
          s\<lparr>pc := (if has_next (formatter s) then Refill_body else Get_front),
            trace := trace s @ [Has_next (has_next (formatter s))]\<rparr>
      | Refill_body \<Rightarrow>
          (let s' = push_next s
           in if pc s' = Contract_violation then s' else s'\<lparr>pc := Get_front\<rparr>)
      | Get_front \<Rightarrow>
          (case futures s of
             [] \<Rightarrow> s\<lparr>pc := Undefined\<rparr>
           | f # _ \<Rightarrow>
               (case get f of
                  None \<Rightarrow> s
                | Some (Inl msg) \<Rightarrow>
                    s\<lparr>pc := Thrown (Worker_failure msg), trace := trace s @ [Get (task_id f)]\<rparr>
                | Some (Inr bytes) \<Rightarrow>
                    s\<lparr>chunk := bytes, pc := Pop_front, trace := trace s @ [Get (task_id f)]\<rparr>))
      | Pop_front \<Rightarrow>
          (case futures s of
             [] \<Rightarrow> s\<lparr>pc := Undefined\<rparr>
           | _ # rest \<Rightarrow> s\<lparr>futures := rest, pc := Write_chunk, trace := trace s @ [Pop]\<rparr>)
      | Write_chunk \<Rightarrow>
          (case os_write (os s) (chunk s) of
             (out, None) \<Rightarrow>
               s\<lparr>os := out, pc := Drain_test, trace := trace s @ [Write (chunk s)]\<rparr>
           | (out, Some e) \<Rightarrow>
               s\<lparr>os := out, pc := Thrown e, trace := trace s @ [Write (chunk s)]\<rparr>)
      | Yield_cpu \<Rightarrow> s\<lparr>pc := Drain_test, trace := trace s @ [Yield]\<rparr>
      | Returned \<Rightarrow> s
      | Thrown e \<Rightarrow> s
      | Contract_violation \<Rightarrow> s
      | Undefined \<Rightarrow> s)"

text \<open>
  A worker finishing task \<open>i\<close> makes the handle of that task ready, wherever it is in the
  queue. Nothing else of the coordinator's state is shared with the workers.
\<close>

definition worker_finishes :: "nat \<Rightarrow> state \<Rightarrow> state" where
  "worker_finishes i s = s\<lparr>futures := map (finish i) (futures s)\<rparr>"

text \<open>
  A run is an interleaving of coordinator steps and worker completions, in any order:
  the schedule. Every order in which workers complete tasks, and every delay between
  completion and the coordinator's next look, is some schedule.
\<close>

datatype action = Coordinator | Worker_finishes nat

fun exec :: "action \<Rightarrow> state \<Rightarrow> state" where
  "exec Coordinator s = coordinator s"
| "exec (Worker_finishes i) s = worker_finishes i s"

fun run :: "action list \<Rightarrow> state \<Rightarrow> state" where
  "run [] s = s"
| "run (a # as) s = run as (exec a s)"

definition write_body_threads :: "32 word \<Rightarrow> formatter \<Rightarrow> ostream \<Rightarrow> action list \<Rightarrow> state" where
  "write_body_threads thread_count fmt out sched = run sched (init thread_count fmt out)"

section \<open>The vocabulary of the claims\<close>

text \<open>The bytes a work item contributes to the stream (none if it raises).\<close>

definition bytes_of :: "work_item \<Rightarrow> string" where
  "bytes_of w = (case w of Inl _ \<Rightarrow> [] | Inr b \<Rightarrow> b)"

text \<open>The front of the queue: whether it is complete, and which task it stands for.\<close>

definition front_ready :: "state \<Rightarrow> bool" where
  "front_ready s = (case futures s of [] \<Rightarrow> False | f # _ \<Rightarrow> ready f)"

definition front_id :: "state \<Rightarrow> nat" where
  "front_id s = (case futures s of [] \<Rightarrow> 0 | f # _ \<Rightarrow> task_id f)"

text \<open>
  Handles are removed at the front only, so the number of handles removed so far is the
  number submitted minus the number queued.
\<close>

definition popped :: "state \<Rightarrow> nat" where
  "popped s = submitted s - length (futures s)"

text \<open>
  The number of chunks handed to \<^verbatim>\<open>os.write\<close> so far: at line 61 the front has been
  removed but not written yet.
\<close>

definition written_count :: "state \<Rightarrow> nat" where
  "written_count s = (if pc s = Write_chunk then popped s - 1 else popped s)"

text \<open>
  Submitted work items whose bytes have not been handed to \<^verbatim>\<open>os.write\<close> yet, and
  submitted work items no worker has finished yet.
\<close>

definition outstanding :: "state \<Rightarrow> nat" where
  "outstanding s = submitted s - written_count s"

definition unfinished :: "state \<Rightarrow> nat" where
  "unfinished s = length (filter (\<lambda>f. \<not> ready f) (futures s))"

text \<open>
  Lines 59 to 61: between the refill of line 55 and the end of the write of the front
  chunk; a failure raised by \<^verbatim>\<open>get\<close> on line 59 ends the call there.
\<close>

definition writing_back :: "pc \<Rightarrow> bool" where
  "writing_back p =
     (case p of Get_front \<Rightarrow> True | Pop_front \<Rightarrow> True | Write_chunk \<Rightarrow> True
      | Thrown e \<Rightarrow> (case e of Worker_failure _ \<Rightarrow> True | Ios_failure \<Rightarrow> False)
      | _ \<Rightarrow> False)"

text \<open>The places where the call has ended.\<close>

definition terminal :: "pc \<Rightarrow> bool" where
  "terminal p = (case p of Returned \<Rightarrow> True | Thrown _ \<Rightarrow> True
                 | Contract_violation \<Rightarrow> True | Undefined \<Rightarrow> True | _ \<Rightarrow> False)"

text \<open>
  The default exception mask, \<^verbatim>\<open>exceptions() == goodbit\<close>: no state of the stream makes
  \<^verbatim>\<open>setstate\<close> throw.
\<close>

definition no_mask :: "ostream \<Rightarrow> bool" where
  "no_mask out \<longleftrightarrow> \<not> except_badbit out \<and> \<not> except_failbit out \<and> \<not> except_eofbit out"

text \<open>
  The number of times the coordinator has found the front handle not complete, and the
  number of steps the coordinator takes in a schedule.
\<close>

definition failed_polls :: "state \<Rightarrow> nat" where
  "failed_polls s =
     length (filter (\<lambda>e. case e of Is_ready _ r \<Rightarrow> \<not> r | _ \<Rightarrow> False) (trace s))"

definition coordinator_steps_of :: "action list \<Rightarrow> nat" where
  "coordinator_steps_of sched = length (filter (\<lambda>a. a = Coordinator) sched)"

text \<open>
  Properties of the order of the coordinator's calls are stated on the trace, by a
  monitor: an automaton that reads the trace from the first call on and stops with
  \<open>None\<close> at the first call that breaks the rule.
\<close>

fun monitor :: "('q \<Rightarrow> event \<Rightarrow> 'q option) \<Rightarrow> 'q \<Rightarrow> event list \<Rightarrow> 'q option" where
  "monitor step q [] = Some q"
| "monitor step q (e # es) = (case step q e of None \<Rightarrow> None | Some q' \<Rightarrow> monitor step q' es)"

text \<open>
  \<^verbatim>\<open>next_chunk\<close> is guarded when the call right before it is \<^verbatim>\<open>has_next\<close> and
  returned true. The monitor remembers whether the last call was that.
\<close>

definition guard_step :: "bool \<Rightarrow> event \<Rightarrow> bool option" where
  "guard_step asked e = (if e = Next_chunk \<and> \<not> asked then None else Some (e = Has_next True))"

definition guarded :: "event list \<Rightarrow> bool" where
  "guarded es \<longleftrightarrow> monitor guard_step False es \<noteq> None"

text \<open>
  Polling the front only. The monitor counts the handles popped so far (\<open>k\<close>): the
  handles are numbered in submission order and popped in that order, so handle \<open>k\<close> is
  the front. A poll must ask for handle \<open>k\<close>. After a poll of handle \<open>i\<close> that found
  it not ready, the next call must be the yield, and the call after it a poll of \<open>i\<close>
  again; any other call in between (a submission, a removal, a write) stops the monitor.
\<close>

datatype expect = Anything | Yield_next nat | Poll_next nat

definition poll_step :: "nat \<times> expect \<Rightarrow> event \<Rightarrow> (nat \<times> expect) option" where
  "poll_step q e =
     (case q of (k, x) \<Rightarrow>
        (case e of
           Is_ready i b \<Rightarrow>
             if i = k \<and> (x = Anything \<or> x = Poll_next i)
             then Some (k, if b then Anything else Yield_next i) else None
         | Yield \<Rightarrow> (case x of Yield_next i \<Rightarrow> Some (k, Poll_next i) | _ \<Rightarrow> None)
         | Pop \<Rightarrow> if x = Anything then Some (Suc k, Anything) else None
         | _ \<Rightarrow> if x = Anything then Some (k, Anything) else None))"

definition polls_front_only :: "event list \<Rightarrow> bool" where
  "polls_front_only es \<longleftrightarrow> monitor poll_step (0, Anything) es \<noteq> None"

text \<open>
  The order of calls in a drain step that found the front complete: \<^verbatim>\<open>has_next\<close>;
  if it returned true, \<^verbatim>\<open>next_chunk\<close> and \<^verbatim>\<open>submit\<close>; only then \<^verbatim>\<open>get\<close>,
  \<^verbatim>\<open>pop\<close> and \<^verbatim>\<open>write\<close>, which may occur nowhere else.
\<close>

datatype stage = Idle | Polled | Must_pull | Must_submit | Refilled | Got | Popped

definition drain_step :: "stage \<Rightarrow> event \<Rightarrow> stage option" where
  "drain_step q e =
     (case q of
        Idle \<Rightarrow>
          (case e of
             Is_ready i b \<Rightarrow> Some (if b then Polled else Idle)
           | Get i \<Rightarrow> None
           | Pop \<Rightarrow> None
           | Write bytes \<Rightarrow> None
           | _ \<Rightarrow> Some Idle)
      | Polled \<Rightarrow> (case e of Has_next b \<Rightarrow> Some (if b then Must_pull else Refilled) | _ \<Rightarrow> None)
      | Must_pull \<Rightarrow> (case e of Next_chunk \<Rightarrow> Some Must_submit | _ \<Rightarrow> None)
      | Must_submit \<Rightarrow> (case e of Submit n \<Rightarrow> Some Refilled | _ \<Rightarrow> None)
      | Refilled \<Rightarrow> (case e of Get i \<Rightarrow> Some Got | _ \<Rightarrow> None)
      | Got \<Rightarrow> (case e of Pop \<Rightarrow> Some Popped | _ \<Rightarrow> None)
      | Popped \<Rightarrow> (case e of Write bytes \<Rightarrow> Some Idle | _ \<Rightarrow> None))"

definition refills_first :: "event list \<Rightarrow> bool" where
  "refills_first es \<longleftrightarrow> monitor drain_step Idle es \<noteq> None"

section \<open>Invariants of a run\<close>

text \<open>
  The facts below hold in every state a run can reach. They are stated per place of
  control. \<open>W\<close> is the value of \<^verbatim>\<open>inflight_count\<close>, \<open>ch\<close> the work items the
  formatter held at the call, \<open>out\<close> the stream at the call.
\<close>

definition window_ok :: "int \<Rightarrow> state \<Rightarrow> bool" where
  "window_ok W s \<longleftrightarrow>
     length (futures s) \<le> nat W \<and> (formatter s \<noteq> [] \<longrightarrow> length (futures s) = nat W)"

definition refilled_ok :: "int \<Rightarrow> state \<Rightarrow> bool" where
  "refilled_ok W s \<longleftrightarrow>
     length (futures s) \<le> nat W + 1 \<and> (formatter s \<noteq> [] \<longrightarrow> length (futures s) = nat W + 1)"

definition inv_ctl :: "int \<Rightarrow> state \<Rightarrow> bool" where
  "inv_ctl W s \<longleftrightarrow>
     inflight_count s = W \<and>
     (case pc s of
        Prime_test \<Rightarrow>
          0 \<le> batch_i s \<and> batch_i s \<le> max 0 W \<and> int (length (futures s)) = batch_i s
      | Prime_body \<Rightarrow>
          0 \<le> batch_i s \<and> batch_i s < W \<and> int (length (futures s)) = batch_i s \<and>
          formatter s \<noteq> []
      | Drain_test \<Rightarrow> window_ok W s
      | Poll \<Rightarrow> futures s \<noteq> [] \<and> window_ok W s
      | Yield_cpu \<Rightarrow> futures s \<noteq> [] \<and> window_ok W s
      | Refill_test \<Rightarrow> front_ready s \<and> window_ok W s
      | Refill_body \<Rightarrow> front_ready s \<and> formatter s \<noteq> [] \<and> length (futures s) = nat W
      | Get_front \<Rightarrow> front_ready s \<and> refilled_ok W s
      | Pop_front \<Rightarrow> front_ready s \<and> refilled_ok W s
      | Write_chunk \<Rightarrow> window_ok W s
      | Returned \<Rightarrow> futures s = [] \<and> (formatter s \<noteq> [] \<longrightarrow> W \<le> 0)
      | Thrown e \<Rightarrow>
          (case e of
             Worker_failure m \<Rightarrow> front_ready s \<and> refilled_ok W s
           | Ios_failure \<Rightarrow> window_ok W s)
      | Contract_violation \<Rightarrow> False
      | Undefined \<Rightarrow> False)"

text \<open>
  The queue holds the handles of the work items \<open>popped s\<close> up to \<open>submitted s\<close> of the
  source, in that order, and the formatter holds the rest.
\<close>

definition inv_queue :: "formatter \<Rightarrow> state \<Rightarrow> bool" where
  "inv_queue ch s \<longleftrightarrow>
     submitted s \<le> length ch \<and>
     formatter s = drop (submitted s) ch \<and>
     length (futures s) \<le> submitted s \<and>
     map task_id (futures s) = [popped s ..< submitted s] \<and>
     map work (futures s) = map ((!) ch) [popped s ..< submitted s]"

text \<open>
  What the writes of the bytes \<open>bytes\<close>, in any number of calls of \<^verbatim>\<open>os.write\<close>,
  make of the stream \<open>out\<close>: but for \<^verbatim>\<open>failbit\<close>, what one write of all the bytes
  makes of it. \<^verbatim>\<open>failbit\<close> is never cleared; it is set only by a sentry that does so,
  and on a stream that was good at first only after \<^verbatim>\<open>badbit\<close>.
\<close>

definition stream_after :: "ostream \<Rightarrow> string \<Rightarrow> ostream \<Rightarrow> bool" where
  "stream_after out bytes out' \<longleftrightarrow>
     out' = (fst (os_write out bytes))\<lparr>failbit := failbit out'\<rparr> \<and>
     (failbit out \<longrightarrow> failbit out') \<and>
     (good out \<and> failbit out' \<longrightarrow> badbit out') \<and>
     (failbit out' \<and> \<not> failbit out \<longrightarrow> sentry out \<noteq> Never)"

text \<open>
  The stream is what the writes of the first \<open>written_count s\<close> chunks make of the stream
  at the call; none of these chunks failed. If the stream's state and mask had no bit in
  common at the call, they have one exactly if the call has ended with
  \<^verbatim>\<open>ios_base::failure\<close>.
\<close>

definition inv_sink :: "formatter \<Rightarrow> ostream \<Rightarrow> state \<Rightarrow> bool" where
  "inv_sink ch out s \<longleftrightarrow>
     stream_after out (concat (map bytes_of (take (written_count s) ch))) (os s) \<and>
     (\<forall>c \<in> set (take (written_count s) ch). \<exists>b. c = Inr b) \<and>
     (pc s = Write_chunk \<longrightarrow>
        0 < popped s \<and> popped s \<le> length ch \<and> ch ! (popped s - 1) = Inr (chunk s)) \<and>
     (pc s = Pop_front \<longrightarrow> ch ! popped s = Inr (chunk s)) \<and>
     (\<forall>m. pc s = Thrown (Worker_failure m) \<longrightarrow> ch ! popped s = Inl m) \<and>
     (\<not> throws out \<longrightarrow> (pc s = Thrown Ios_failure \<longleftrightarrow> throws (os s)))"

text \<open>Two states that differ at most in which handles are ready.\<close>

definition same_but_ready :: "state \<Rightarrow> state \<Rightarrow> bool" where
  "same_but_ready s s' \<longleftrightarrow>
     pc s' = pc s \<and> os s' = os s \<and> trace s' = trace s \<and> formatter s' = formatter s \<and>
     submitted s' = submitted s \<and> chunk s' = chunk s \<and> batch_i s' = batch_i s \<and>
     inflight_count s' = inflight_count s \<and>
     map task_id (futures s') = map task_id (futures s) \<and>
     map work (futures s') = map work (futures s)"

definition inv :: "int \<Rightarrow> formatter \<Rightarrow> ostream \<Rightarrow> state \<Rightarrow> bool" where
  "inv W ch out s \<longleftrightarrow> inv_ctl W s \<and> inv_queue ch s \<and> inv_sink ch out s"

text \<open>Two states that differ at most in the stream.\<close>

definition same_but_os :: "state \<Rightarrow> state \<Rightarrow> bool" where
  "same_but_os s s' \<longleftrightarrow> s' = s\<lparr>os := os s'\<rparr>"

text \<open>Where the call has ended with a worker's failure, the last call was the \<^verbatim>\<open>get\<close>.\<close>

definition inv_thrown :: "state \<Rightarrow> bool" where
  "inv_thrown s \<longleftrightarrow>
     (\<forall>m. pc s = Thrown (Worker_failure m) \<longrightarrow> trace s \<noteq> [] \<and> last (trace s) = Get (popped s))"

text \<open>The state of each monitor, read off the coordinator's state.\<close>

definition inv_guard :: "state \<Rightarrow> bool" where
  "inv_guard s \<longleftrightarrow>
     monitor guard_step False (trace s) = Some (pc s = Prime_body \<or> pc s = Refill_body)"

definition stage_of :: "pc \<Rightarrow> stage" where
  "stage_of p =
     (case p of
        Refill_test \<Rightarrow> Polled
      | Refill_body \<Rightarrow> Must_pull
      | Get_front \<Rightarrow> Refilled
      | Pop_front \<Rightarrow> Got
      | Write_chunk \<Rightarrow> Popped
      | Thrown e \<Rightarrow> (case e of Worker_failure _ \<Rightarrow> Got | Ios_failure \<Rightarrow> Idle)
      | _ \<Rightarrow> Idle)"

definition inv_stage :: "state \<Rightarrow> bool" where
  "inv_stage s \<longleftrightarrow> monitor drain_step Idle (trace s) = Some (stage_of (pc s))"

definition expect_ok :: "state \<Rightarrow> expect \<Rightarrow> bool" where
  "expect_ok s x =
     (case x of
        Anything \<Rightarrow> pc s \<noteq> Yield_cpu
      | Yield_next i \<Rightarrow> pc s = Yield_cpu \<and> i = popped s
      | Poll_next i \<Rightarrow> (pc s = Drain_test \<or> pc s = Poll) \<and> futures s \<noteq> [] \<and> i = popped s)"

definition inv_poll :: "state \<Rightarrow> bool" where
  "inv_poll s \<longleftrightarrow>
     (\<exists>x. monitor poll_step (0, Anything) (trace s) = Some (popped s, x) \<and> expect_ok s x)"

text \<open>
  A measure of the work left, which decreases with every step of the coordinator that
  follows the completion of the front handle.
\<close>

definition rank :: "pc \<Rightarrow> nat" where
  "rank p =
     (case p of
        Prime_test \<Rightarrow> 9 | Prime_body \<Rightarrow> 8 | Write_chunk \<Rightarrow> 8 | Yield_cpu \<Rightarrow> 8
      | Drain_test \<Rightarrow> 7 | Poll \<Rightarrow> 6 | Refill_test \<Rightarrow> 5 | Refill_body \<Rightarrow> 4
      | Get_front \<Rightarrow> 3 | Pop_front \<Rightarrow> 2 | _ \<Rightarrow> 0)"

definition work_left :: "state \<Rightarrow> nat" where
  "work_left s = 20 * length (formatter s) + 10 * length (futures s) + rank (pc s)"

definition front_done_then_step :: "state \<Rightarrow> state" where
  "front_done_then_step s = run [Worker_finishes (front_id s), Coordinator] s"

section \<open>Concrete runs\<close>

text \<open>
  Streams of a library whose sentry sets \<^verbatim>\<open>failbit\<close> on a bad stream, all empty and
  good: on a device without limit, with the default (empty) exception mask; on a device
  that takes one byte, with \<^verbatim>\<open>badbit\<close> in the mask; on a device that takes nothing,
  with the default mask; and on a device that takes nothing, with only \<^verbatim>\<open>failbit\<close> in
  the mask.
\<close>

definition out0 :: ostream where
  "out0 = \<lparr>written = [], room = None, badbit = False, failbit = False, eofbit = False,
           except_badbit = False, except_failbit = False, except_eofbit = False,
           sentry = If_bad\<rparr>"

definition out_throwing :: ostream where
  "out_throwing = out0\<lparr>room := Some 1, except_badbit := True\<rparr>"

definition out_full :: ostream where
  "out_full = out0\<lparr>room := Some 0\<rparr>"

definition out_failbit_mask :: ostream where
  "out_failbit_mask = out0\<lparr>room := Some 0, except_failbit := True\<rparr>"

text \<open>
  Five chunks on a pool of two threads (a window of six). The workers finish in the
  order 4, 2, 1, 0, 3, and the coordinator polls chunk 0 before it is done.
\<close>

definition chunks_ABCDE :: formatter where
  "chunks_ABCDE = [Inr ''A'', Inr ''B'', Inr ''C'', Inr ''D'', Inr ''E'']"

definition coordinator_steps :: "nat \<Rightarrow> action list" where
  "coordinator_steps n = replicate n Coordinator"

definition sched_ABCDE :: "action list" where
  "sched_ABCDE =
     coordinator_steps 11 @ [Worker_finishes 4, Worker_finishes 2] @
     coordinator_steps 5 @ [Worker_finishes 1, Worker_finishes 0, Worker_finishes 3] @
     coordinator_steps 33"

text \<open>The third of five chunks raises; one thread (a window of three).\<close>

definition chunks_boom :: formatter where
  "chunks_boom = [Inr ''A'', Inr ''B'', Inl ''boom'', Inr ''D'', Inr ''E'']"

definition sched_boom :: "action list" where
  "sched_boom =
     coordinator_steps 8 @ [Worker_finishes 2, Worker_finishes 1, Worker_finishes 0] @
     coordinator_steps 7 @ [Worker_finishes 3] @ coordinator_steps 12"

text \<open>
  One thread and the five chunks: after priming, chunk 0 is complete, the coordinator
  polls it and refills. The second schedule runs two chunks to the end.
\<close>

definition sched_refill :: "action list" where
  "sched_refill = coordinator_steps 8 @ [Worker_finishes 0] @ coordinator_steps 3"

definition sched_two :: "action list" where
  "sched_two = coordinator_steps 6 @ [Worker_finishes 1, Worker_finishes 0] @ coordinator_steps 14"

text \<open>
  One thread and the five chunks, up to the end of the first write, and on to the end.
\<close>

definition sched_first_write :: "action list" where
  "sched_first_write =
     coordinator_steps 8 @
     [Worker_finishes 0, Worker_finishes 1, Worker_finishes 2] @
     coordinator_steps 6"

definition sched_to_end :: "action list" where
  "sched_to_end =
     sched_first_write @ coordinator_steps 7 @ [Worker_finishes 3, Worker_finishes 4] @
     coordinator_steps 19"

section \<open>Auxiliary lemmas\<close>

lemma os_write_cases:
  obtains (fits) "good out"
      "os_write out a = (out\<lparr>written := written out @ a,
          room := (case room out of None \<Rightarrow> None | Some r \<Rightarrow> Some (r - length a))\<rparr>, None)"
      "case room out of None \<Rightarrow> True | Some r \<Rightarrow> length a \<le> r"
  | (fails) r where "good out" "room out = Some r" "r < length a"
      "os_write out a = setstate_badbit (out\<lparr>written := written out @ take r a, room := Some 0\<rparr>)"
  | (sentry) "\<not> good out" "sentry_sets_failbit out" "os_write out a = setstate_failbit out"
  | (skip) "\<not> good out" "\<not> sentry_sets_failbit out" "os_write out a = (out, None)"
proof (cases "good out")
  case True
  show ?thesis
  proof (cases "room out")
    case None
    with True show ?thesis by (intro fits) (simp_all add: os_write_def)
  next
    case (Some r)
    show ?thesis
    proof (cases "length a \<le> r")
      case le: True
      with True Some show ?thesis by (intro fits) (simp_all add: os_write_def)
    next
      case False
      with True Some show ?thesis by (intro fails [of r]) (simp_all add: os_write_def)
    qed
  qed
next
  case False
  then show ?thesis
    by (cases "sentry_sets_failbit out") (auto intro: sentry skip simp: os_write_def)
qed

lemma os_write_settings [simp]:
  "except_badbit (fst (os_write out a)) = except_badbit out"
  "except_failbit (fst (os_write out a)) = except_failbit out"
  "except_eofbit (fst (os_write out a)) = except_eofbit out"
  "sentry (fst (os_write out a)) = sentry out"
  "eofbit (fst (os_write out a)) = eofbit out"
  by (rule os_write_cases [of out a]; simp add: setstate_badbit_def setstate_failbit_def Let_def)+

lemma os_write_throws:
  "snd (os_write out a) = None \<or> snd (os_write out a) = Some Ios_failure"
  by (rule os_write_cases [of out a]) (simp_all add: setstate_badbit_def setstate_failbit_def Let_def)

lemma run_append: "run (xs @ ys) s = run ys (run xs s)"
  by (induction xs arbitrary: s) simp_all

lemma task_id_finish [simp]: "task_id (finish i f) = task_id f"
  by (simp add: finish_def)

lemma work_finish [simp]: "work (finish i f) = work f"
  by (simp add: finish_def)

lemma ready_finish: "ready f \<Longrightarrow> ready (finish i f)"
  by (simp add: finish_def)

lemma push_next_Cons:
  "formatter s = c # rest \<Longrightarrow>
   push_next s = s\<lparr>formatter := rest,
            futures := futures s @ [submit (submitted s) c],
            submitted := Suc (submitted s),
            trace := trace s @ [Next_chunk, Submit (submitted s)]\<rparr>"
  by (simp add: push_next_def next_chunk_def)

lemma front_ready_finish:
  "front_ready s \<Longrightarrow> futures s' = map (finish i) (futures s) \<Longrightarrow> front_ready s'"
  by (cases "futures s") (simp_all add: front_ready_def ready_finish)

lemma inv_ctl_init:
  "inflight_count_of tc = Some W \<Longrightarrow> inv_ctl W (init tc ch out)"
  by (simp add: inv_ctl_def init_def)

lemma inv_ctl_worker:
  assumes "inv_ctl W s"
  shows "inv_ctl W (worker_finishes i s)"
proof -
  let ?s' = "worker_finishes i s"
  have f: "futures ?s' = map (finish i) (futures s)" by (simp add: worker_finishes_def)
  have same: "pc ?s' = pc s" "formatter ?s' = formatter s" "batch_i ?s' = batch_i s"
    "inflight_count ?s' = inflight_count s" "length (futures ?s') = length (futures s)"
    by (simp_all add: worker_finishes_def)
  have fr: "front_ready s \<Longrightarrow> front_ready ?s'"
    by (rule front_ready_finish [OF _ f])
  have ne: "futures ?s' = [] \<longleftrightarrow> futures s = []" by (simp add: f)
  have w: "window_ok W ?s' = window_ok W s" by (simp add: window_ok_def same)
  have r: "refilled_ok W ?s' = refilled_ok W s" by (simp add: refilled_ok_def same)
  show ?thesis
    using assms fr unfolding inv_ctl_def same w r ne
    by (auto split: pc.splits exn.splits)
qed

lemma inv_ctl_coordinator:
  assumes "inv_ctl W s"
  shows "inv_ctl W (coordinator s)"
proof (cases "pc s")
  case Prime_test
  with assms show ?thesis
    by (auto simp: inv_ctl_def coordinator_def has_next_def window_ok_def)
next
  case Prime_body
  with assms obtain c rest where fmt: "formatter s = c # rest"
    by (cases "formatter s") (simp_all add: inv_ctl_def)
  from Prime_body assms show ?thesis
    by (simp add: inv_ctl_def coordinator_def push_next_Cons [OF fmt] Let_def)
next
  case Drain_test
  with assms show ?thesis
    by (auto simp: inv_ctl_def coordinator_def window_ok_def)
next
  case Poll
  with assms show ?thesis
    by (cases "futures s")
       (auto simp: inv_ctl_def coordinator_def window_ok_def front_ready_def is_ready_def)
next
  case Refill_test
  with assms show ?thesis
    by (auto simp: inv_ctl_def coordinator_def window_ok_def refilled_ok_def has_next_def
        front_ready_def)
next
  case Refill_body
  with assms obtain c rest where fmt: "formatter s = c # rest"
    by (cases "formatter s") (simp_all add: inv_ctl_def)
  from Refill_body assms show ?thesis
    by (cases "futures s")
       (simp_all add: inv_ctl_def coordinator_def push_next_Cons [OF fmt] Let_def
         refilled_ok_def front_ready_def)
next
  case Get_front
  with assms show ?thesis
    by (cases "futures s")
       (auto simp: inv_ctl_def coordinator_def refilled_ok_def front_ready_def get_def
          split: sum.splits)
next
  case Pop_front
  with assms show ?thesis
    by (cases "futures s")
       (auto simp: inv_ctl_def coordinator_def refilled_ok_def window_ok_def front_ready_def)
next
  case Write_chunk
  obtain out' e where w: "os_write (os s) (chunk s) = (out', e)"
    by (cases "os_write (os s) (chunk s)")
  from os_write_throws [of "os s" "chunk s"] w have "e = None \<or> e = Some Ios_failure"
    by simp
  with Write_chunk assms w show ?thesis
    by (auto simp: inv_ctl_def coordinator_def window_ok_def)
next
  case Yield_cpu
  with assms show ?thesis
    by (auto simp: inv_ctl_def coordinator_def window_ok_def)
next
  case Returned
  with assms show ?thesis by (simp add: coordinator_def)
next
  case (Thrown e)
  with assms show ?thesis by (simp add: coordinator_def)
next
  case Contract_violation
  with assms show ?thesis by (simp add: coordinator_def)
next
  case Undefined
  with assms show ?thesis by (simp add: coordinator_def)
qed

lemma inv_ctl_run: "inv_ctl W s \<Longrightarrow> inv_ctl W (run sched s)"
proof (induction sched arbitrary: s)
  case Nil
  then show ?case by simp
next
  case (Cons a sched)
  then show ?case
    by (cases a) (simp_all add: inv_ctl_coordinator inv_ctl_worker)
qed

lemma drop_eq_Cons:
  assumes "drop n xs = y # ys"
  shows "n < length xs" and "xs ! n = y" and "drop (Suc n) xs = ys"
proof -
  show "n < length xs" using assms by (cases "n < length xs") simp_all
  show "xs ! n = y" using assms by (rule nth_via_drop)
  have "drop (Suc n) xs = tl (drop n xs)" by (simp add: drop_Suc tl_drop)
  then show "drop (Suc n) xs = ys" using assms by simp
qed

lemma inv_queue_init: "inv_queue ch (init tc ch out)"
  by (simp add: inv_queue_def init_def popped_def)

lemma inv_queue_push_next:
  assumes "inv_queue ch s" and "formatter s \<noteq> []"
  shows "inv_queue ch (push_next s)"
proof -
  obtain c rest where fmt: "formatter s = c # rest"
    using assms(2) by (cases "formatter s") simp_all
  have d: "drop (submitted s) ch = c # rest"
    using assms(1) fmt by (simp add: inv_queue_def)
  note facts = drop_eq_Cons [OF d]
  note p = push_next_Cons [OF fmt]
  have le: "popped s \<le> submitted s" by (simp add: popped_def)
  have pop: "popped (push_next s) = popped s"
    using assms(1) by (simp add: p popped_def inv_queue_def)
  show "inv_queue ch (push_next s)"
    unfolding inv_queue_def pop
    using assms(1) facts le
    by (simp add: p inv_queue_def submit_def)
qed

lemma inv_queue_front:
  assumes "inv_queue ch s" and "futures s = f # rest"
  shows "task_id f = popped s" and "work f = ch ! popped s" and "popped s < submitted s"
    and "popped s < length ch"
proof -
  have lt: "popped s < submitted s"
    using assms by (simp add: inv_queue_def popped_def)
  then have u: "[popped s ..< submitted s] = popped s # [Suc (popped s) ..< submitted s]"
    by (rule upt_conv_Cons)
  show "popped s < submitted s" by (rule lt)
  show "task_id f = popped s" using assms u by (simp add: inv_queue_def)
  show "work f = ch ! popped s" using assms u by (simp add: inv_queue_def)
  show "popped s < length ch" using assms lt by (simp add: inv_queue_def)
qed

lemma inv_queue_pop:
  assumes "inv_queue ch s" and "futures s = f # rest" and "futures s' = rest"
    and "submitted s' = submitted s" and "formatter s' = formatter s"
  shows "inv_queue ch s'" and "popped s' = Suc (popped s)"
proof -
  have lt: "popped s < submitted s" by (rule inv_queue_front(3) [OF assms(1,2)])
  then have u: "[popped s ..< submitted s] = popped s # [Suc (popped s) ..< submitted s]"
    by (rule upt_conv_Cons)
  have "Suc (length rest) \<le> submitted s"
    using assms by (simp add: inv_queue_def)
  then show p: "popped s' = Suc (popped s)"
    using assms(2-4) by (simp add: popped_def)
  show "inv_queue ch s'"
    unfolding inv_queue_def p using assms u by (simp add: inv_queue_def)
qed

lemma inv_queue_same:
  assumes "inv_queue ch s" and "map task_id (futures s') = map task_id (futures s)"
    and "map work (futures s') = map work (futures s)"
    and "submitted s' = submitted s" and "formatter s' = formatter s"
  shows "inv_queue ch s'" and "popped s' = popped s"
proof -
  have "length (map task_id (futures s')) = length (map task_id (futures s))"
    using assms(2) by simp
  then have len: "length (futures s') = length (futures s)" by simp
  show p: "popped s' = popped s" by (simp add: popped_def len assms)
  show "inv_queue ch s'"
    unfolding inv_queue_def p using assms len by (simp add: inv_queue_def)
qed

lemma inv_queue_worker: "inv_queue ch s \<Longrightarrow> inv_queue ch (worker_finishes i s)"
  by (rule inv_queue_same) (simp_all add: worker_finishes_def)

lemma popped_worker [simp]: "popped (worker_finishes i s) = popped s"
  by (simp add: popped_def worker_finishes_def)

lemma inv_queue_coordinator:
  assumes "inv_queue ch s" and "inv_ctl W s"
  shows "inv_queue ch (coordinator s)"
proof (cases "pc s")
  case Prime_test
  then show ?thesis
    by (auto simp: coordinator_def intro: inv_queue_same(1) [OF assms(1)])
next
  case Prime_body
  with assms(2) have ne: "formatter s \<noteq> []" by (simp add: inv_ctl_def)
  have "inv_queue ch (push_next s)" by (rule inv_queue_push_next [OF assms(1) ne])
  then have "inv_queue ch ((push_next s)\<lparr>batch_i := batch_i s + 1, pc := Prime_test\<rparr>)"
    by (rule inv_queue_same(1)) simp_all
  then show ?thesis
    using Prime_body ne by (cases "formatter s") (simp_all add: coordinator_def Let_def push_next_Cons)
next
  case Drain_test
  then show ?thesis
    by (auto simp: coordinator_def intro: inv_queue_same(1) [OF assms(1)])
next
  case Poll
  then show ?thesis
    by (cases "futures s")
       (auto simp: coordinator_def intro: inv_queue_same(1) [OF assms(1)])
next
  case Refill_test
  then show ?thesis
    by (auto simp: coordinator_def intro: inv_queue_same(1) [OF assms(1)])
next
  case Refill_body
  with assms(2) have ne: "formatter s \<noteq> []" by (simp add: inv_ctl_def)
  have "inv_queue ch (push_next s)" by (rule inv_queue_push_next [OF assms(1) ne])
  then have "inv_queue ch ((push_next s)\<lparr>pc := Get_front\<rparr>)"
    by (rule inv_queue_same(1)) simp_all
  then show ?thesis
    using Refill_body ne by (cases "formatter s") (simp_all add: coordinator_def Let_def push_next_Cons)
next
  case Get_front
  then show ?thesis
    by (cases "futures s")
       (auto simp: coordinator_def split: option.splits sum.splits
             intro: inv_queue_same(1) [OF assms(1)])
next
  case Pop_front
  show ?thesis
  proof (cases "futures s")
    case Nil
    with Pop_front show ?thesis
      by (auto simp: coordinator_def intro: inv_queue_same(1) [OF assms(1)])
  next
    case (Cons f rest)
    have "inv_queue ch (s\<lparr>futures := rest, pc := Write_chunk, trace := trace s @ [Pop]\<rparr>)"
      by (rule inv_queue_pop(1) [OF assms(1) Cons]) simp_all
    with Pop_front Cons show ?thesis by (simp add: coordinator_def)
  qed
next
  case Write_chunk
  then show ?thesis
    by (auto simp: coordinator_def split: prod.splits option.splits
          intro: inv_queue_same(1) [OF assms(1)])
next
  case Yield_cpu
  then show ?thesis
    by (auto simp: coordinator_def intro: inv_queue_same(1) [OF assms(1)])
next
  case Returned
  with assms show ?thesis by (simp add: coordinator_def)
next
  case (Thrown e)
  with assms show ?thesis by (simp add: coordinator_def)
next
  case Contract_violation
  with assms show ?thesis by (simp add: coordinator_def)
next
  case Undefined
  with assms show ?thesis by (simp add: coordinator_def)
qed

lemma os_write_throws_iff:
  "\<not> throws out \<Longrightarrow>
     snd (os_write out a) = Some Ios_failure \<longleftrightarrow> throws (fst (os_write out a))"
  by (rule os_write_cases [of out a])
     (simp_all add: setstate_badbit_def setstate_failbit_def Let_def throws_def)

lemma os_write_no_mask:
  "no_mask out \<Longrightarrow> snd (os_write out a) = None"
  "no_mask out \<Longrightarrow> no_mask (fst (os_write out a))"
  by (rule os_write_cases [of out a];
      simp add: setstate_badbit_def setstate_failbit_def Let_def throws_def no_mask_def)+

lemma stream_after_init: "stream_after out [] out"
  by (rule os_write_cases [of out "[]"])
     (auto simp: stream_after_def setstate_failbit_def Let_def good_def split: option.splits)

lemma stream_after_settings:
  assumes "stream_after out b out'"
  shows "except_badbit out' = except_badbit out" "except_failbit out' = except_failbit out"
    "except_eofbit out' = except_eofbit out" "sentry out' = sentry out"
    "eofbit out' = eofbit out"
proof -
  from assms have eq: "out' = (fst (os_write out b))\<lparr>failbit := failbit out'\<rparr>"
    by (simp add: stream_after_def)
  show "except_badbit out' = except_badbit out" by (subst eq) simp
  show "except_failbit out' = except_failbit out" by (subst eq) simp
  show "except_eofbit out' = except_eofbit out" by (subst eq) simp
  show "sentry out' = sentry out" by (subst eq) simp
  show "eofbit out' = eofbit out" by (subst eq) simp
qed

text \<open>A stream that is good after the writes has taken all the bytes.\<close>

lemma stream_after_good:
  assumes "stream_after out b out'" and "good out'"
  shows "good out" and "written out' = written out @ b"
    and "out' = fst (os_write out b)" and "snd (os_write out b) = None"
proof -
  from assms(1) have eq: "out' = (fst (os_write out b))\<lparr>failbit := failbit out'\<rparr>"
    and fb: "failbit out \<longrightarrow> failbit out'"
    by (simp_all add: stream_after_def)
  from assms(2) have nb: "\<not> badbit out'" "\<not> failbit out'" "\<not> eofbit out'"
    by (simp_all add: good_def)
  have eq': "out' = (fst (os_write out b))\<lparr>failbit := False\<rparr>"
    using eq nb(2) by simp
  have bad: "badbit (fst (os_write out b)) = badbit out'"
    by (subst eq) simp
  have wr: "written (fst (os_write out b)) = written out'"
    by (subst eq) simp
  have eof: "eofbit out = eofbit out'"
    using stream_after_settings(5) [OF assms(1)] by simp
  show g: "good out"
  proof (rule ccontr)
    assume ng: "\<not> good out"
    then have "os_write out b = setstate_failbit out \<or> os_write out b = (out, None)"
      by (simp add: os_write_def)
    then have "badbit (fst (os_write out b)) = badbit out"
      by (auto simp: setstate_failbit_def Let_def)
    with bad nb(1) have "\<not> badbit out" by simp
    with fb nb(2) eof nb(3) ng show False by (simp add: good_def)
  qed
  have all: "written out' = written out @ b \<and> out' = fst (os_write out b) \<and>
      snd (os_write out b) = None"
  proof (rule os_write_cases [of out b])
    assume "os_write out b = (out\<lparr>written := written out @ b,
          room := (case room out of None \<Rightarrow> None | Some r \<Rightarrow> Some (r - length b))\<rparr>, None)"
    with eq' g wr show ?thesis by (simp add: good_def)
  next
    fix r
    assume "os_write out b = setstate_badbit (out\<lparr>written := written out @ take r b, room := Some 0\<rparr>)"
    with bad nb(1) show ?thesis by (simp add: setstate_badbit_def Let_def)
  next
    assume "\<not> good out"
    with g show ?thesis by simp
  next
    assume "\<not> good out"
    with g show ?thesis by simp
  qed
  then show "written out' = written out @ b" "out' = fst (os_write out b)"
    "snd (os_write out b) = None"
    by blast+
qed

text \<open>A stream that is not bad has taken all the bytes or none.\<close>

lemma stream_after_not_bad:
  assumes "stream_after out b out'" and "\<not> badbit out'"
  shows "written out' = written out @ b \<or> written out' = written out"
proof -
  from assms(1) have eq: "out' = (fst (os_write out b))\<lparr>failbit := failbit out'\<rparr>"
    by (simp add: stream_after_def)
  have bad: "badbit (fst (os_write out b)) = badbit out'"
    by (subst eq) simp
  have wr: "written out' = written (fst (os_write out b))"
    by (subst eq) simp
  show ?thesis
  proof (rule os_write_cases [of out b])
    assume "os_write out b = (out\<lparr>written := written out @ b,
          room := (case room out of None \<Rightarrow> None | Some r \<Rightarrow> Some (r - length b))\<rparr>, None)"
    with wr show ?thesis by simp
  next
    fix r
    assume "os_write out b = setstate_badbit (out\<lparr>written := written out @ take r b, room := Some 0\<rparr>)"
    with bad assms(2) show ?thesis by (simp add: setstate_badbit_def Let_def)
  next
    assume "os_write out b = setstate_failbit out"
    with wr show ?thesis by (simp add: setstate_failbit_def Let_def)
  next
    assume "os_write out b = (out, None)"
    with wr show ?thesis by simp
  qed
qed


lemma os_write_good_result:
  assumes "good (fst (os_write out a))"
  shows "good out" and "case room out of None \<Rightarrow> True | Some r \<Rightarrow> length a \<le> r"
    and "os_write out a = (out\<lparr>written := written out @ a,
          room := (case room out of None \<Rightarrow> None | Some r \<Rightarrow> Some (r - length a))\<rparr>, None)"
proof -
  have "good out \<and> (case room out of None \<Rightarrow> True | Some r \<Rightarrow> length a \<le> r) \<and>
     os_write out a = (out\<lparr>written := written out @ a,
          room := (case room out of None \<Rightarrow> None | Some r \<Rightarrow> Some (r - length a))\<rparr>, None)"
  proof (rule os_write_cases [of out a])
    fix r
    assume "os_write out a = setstate_badbit (out\<lparr>written := written out @ take r a, room := Some 0\<rparr>)"
    with assms show ?thesis by (simp add: setstate_badbit_def Let_def good_def)
  next
    assume "\<not> good out" "os_write out a = setstate_failbit out"
    with assms show ?thesis by (simp add: setstate_failbit_def Let_def good_def)
  next
    assume "\<not> good out" "os_write out a = (out, None)"
    with assms show ?thesis by simp
  qed simp
  then show "good out" and "case room out of None \<Rightarrow> True | Some r \<Rightarrow> length a \<le> r"
    and "os_write out a = (out\<lparr>written := written out @ a,
          room := (case room out of None \<Rightarrow> None | Some r \<Rightarrow> Some (r - length a))\<rparr>, None)"
    by blast+
qed

lemma os_write_append_good:
  assumes "good (fst (os_write out a))"
  shows "os_write (fst (os_write out a)) c = os_write out (a @ c)"
proof -
  note g = os_write_good_result [OF assms]
  let ?m = "out\<lparr>written := written out @ a,
          room := (case room out of None \<Rightarrow> None | Some r \<Rightarrow> Some (r - length a))\<rparr>"
  have m: "fst (os_write out a) = ?m" using g(3) by simp
  have gm: "good ?m" using g(1) by (simp add: good_def)
  show ?thesis
  proof (cases "room out")
    case None
    with g(1) gm show ?thesis unfolding m by (simp add: os_write_def)
  next
    case (Some r)
    with g(2) have le: "length a \<le> r" by simp
    show ?thesis
    proof (cases "length c \<le> r - length a")
      case True
      with le have "length a + length c \<le> r" by simp
      with True Some g(1) gm show ?thesis unfolding m by (simp add: os_write_def)
    next
      case False
      with le have "\<not> length a + length c \<le> r" by simp
      with False Some g(1) gm le show ?thesis
        unfolding m by (simp add: os_write_def setstate_badbit_def Let_def throws_def)
    qed
  qed
qed

lemma os_write_good_no_failbit:
  "good out \<Longrightarrow> \<not> failbit (fst (os_write out a))"
  by (rule os_write_cases [of out a])
     (simp_all add: good_def setstate_badbit_def Let_def)

lemma os_write_append_bad:
  assumes "good out" and "badbit (fst (os_write out a))"
  shows "fst (os_write out (a @ c)) = fst (os_write out a)"
proof (cases "room out")
  case None
  with assms show ?thesis by (simp add: os_write_def good_def)
next
  case (Some r)
  show ?thesis
  proof (cases "length a \<le> r")
    case True
    with assms Some show ?thesis by (simp add: os_write_def good_def)
  next
    case False
    then have "\<not> length a + length c \<le> r" by simp
    with False assms(1) Some show ?thesis
      by (simp add: os_write_def setstate_badbit_def Let_def)
  qed
qed

lemma os_write_not_good:
  "\<not> good out \<Longrightarrow> (fst (os_write out a))\<lparr>failbit := f\<rparr> = out\<lparr>failbit := f\<rparr>"
  by (simp add: os_write_def setstate_failbit_def Let_def)

lemma os_write_not_good_bits:
  assumes "\<not> good out"
  shows "badbit (fst (os_write out a)) = badbit out"
    and "failbit out \<longrightarrow> failbit (fst (os_write out a))"
    and "fst (os_write out a) = out\<lparr>failbit := failbit (fst (os_write out a))\<rparr>"
    and "failbit (fst (os_write out a)) \<longrightarrow> failbit out \<or> sentry out \<noteq> Never"
  using assms
  by (auto simp: os_write_def setstate_failbit_def Let_def sentry_sets_failbit_def)

lemma stream_after_write:
  assumes "stream_after out b out'"
  shows "stream_after out (b @ c) (fst (os_write out' c))"
proof (cases "good out'")
  case True
  note g = stream_after_good [OF assms True]
  have gg: "good (fst (os_write out b))" using True g(3) by simp
  have "os_write out' c = os_write out (b @ c)"
    unfolding g(3) by (rule os_write_append_good [OF gg])
  then have eq: "fst (os_write out' c) = fst (os_write out (b @ c))" by simp
  show ?thesis
    unfolding eq stream_after_def
    using g(1) os_write_good_no_failbit [OF g(1), of "b @ c"] by (simp add: good_def)
next
  case False
  let ?n = "fst (os_write out' c)"
  note n = os_write_not_good_bits [OF False, of c]
  from assms have eq: "out' = (fst (os_write out b))\<lparr>failbit := failbit out'\<rparr>"
    and fb: "failbit out \<longrightarrow> failbit out'"
    and gb: "good out \<and> failbit out' \<longrightarrow> badbit out'"
    and sb: "failbit out' \<and> \<not> failbit out \<longrightarrow> sentry out \<noteq> Never"
    by (simp_all add: stream_after_def)
  have eof: "eofbit out' = eofbit out" by (rule stream_after_settings(5) [OF assms])
  have sen: "sentry out' = sentry out" by (rule stream_after_settings(4) [OF assms])
  have bad: "badbit (fst (os_write out b)) = badbit out'"
    by (subst eq) simp
  have n1: "?n = (fst (os_write out b))\<lparr>failbit := failbit ?n\<rparr>"
    by (subst n(3), subst eq) simp
  have same: "(fst (os_write out (b @ c)))\<lparr>failbit := x\<rparr> = (fst (os_write out b))\<lparr>failbit := x\<rparr>"
    for x
  proof (cases "good out")
    case True
    with False eof gb have "badbit out'" by (auto simp: good_def)
    with bad have "badbit (fst (os_write out b))" by simp
    from os_write_append_bad [OF True this] show ?thesis by simp
  next
    case False
    then show ?thesis by (simp add: os_write_not_good)
  qed
  have 1: "?n = (fst (os_write out (b @ c)))\<lparr>failbit := failbit ?n\<rparr>"
    unfolding same by (rule n1)
  have 2: "failbit out \<longrightarrow> failbit ?n" using fb n(2) by blast
  have 3: "good out \<and> failbit ?n \<longrightarrow> badbit ?n"
  proof
    assume a: "good out \<and> failbit ?n"
    with False eof gb have "badbit out'" by (auto simp: good_def)
    with n(1) show "badbit ?n" by simp
  qed
  have 4: "failbit ?n \<and> \<not> failbit out \<longrightarrow> sentry out \<noteq> Never"
    using n(4) sb sen by auto
  from 1 2 3 4 show ?thesis unfolding stream_after_def by blast
qed

lemma inv_sink_init: "inv_sink ch out (init tc ch out)"
  by (auto simp: inv_sink_def init_def written_count_def popped_def stream_after_init
      split: option.splits)

lemma inv_sink_frame:
  assumes "inv_sink ch out s" and "os s' = os s" and "popped s' = popped s"
    and "pc s \<noteq> Write_chunk" and "\<forall>e. pc s \<noteq> Thrown e"
    and "pc s' \<noteq> Write_chunk" and "pc s' \<noteq> Pop_front" and "\<forall>e. pc s' \<noteq> Thrown e"
  shows "inv_sink ch out s'"
  using assms by (auto simp: inv_sink_def written_count_def)

lemma inv_sink_worker:
  assumes "inv_sink ch out s"
  shows "inv_sink ch out (worker_finishes i s)"
proof -
  have same: "os (worker_finishes i s) = os s" "pc (worker_finishes i s) = pc s"
    "chunk (worker_finishes i s) = chunk s"
    by (simp_all add: worker_finishes_def)
  have wc: "written_count (worker_finishes i s) = written_count s"
    by (simp add: written_count_def same)
  show ?thesis
    unfolding inv_sink_def wc same popped_worker
    using assms unfolding inv_sink_def .
qed

lemma popped_coordinator:
  assumes "inv_queue ch s"
  shows "popped (coordinator s) =
           (if pc s = Pop_front \<and> futures s \<noteq> [] then Suc (popped s) else popped s)"
proof -
  have len: "length (futures s) \<le> submitted s"
    using assms by (simp add: inv_queue_def)
  have push: "popped (push_next s) = popped s"
    using len by (cases "formatter s") (simp_all add: push_next_def next_chunk_def popped_def)
  show ?thesis
  proof (cases "pc s")
    case Pop_front
    then show ?thesis
      using len by (cases "futures s") (simp_all add: coordinator_def popped_def)
  next
    case Prime_body
    then show ?thesis
      using push by (simp add: coordinator_def Let_def popped_def)
  next
    case Refill_body
    then show ?thesis
      using push by (simp add: coordinator_def Let_def popped_def)
  next
    case Get_front
    then show ?thesis
      by (cases "futures s")
         (simp_all add: coordinator_def popped_def split: option.splits sum.splits)
  next
    case Poll
    then show ?thesis
      by (cases "futures s") (simp_all add: coordinator_def popped_def)
  next
    case Write_chunk
    then show ?thesis
      by (simp add: coordinator_def popped_def split: prod.splits option.splits)
  qed (simp_all add: coordinator_def popped_def)
qed

lemma os_push_next [simp]: "os (push_next s) = os s"
  by (simp add: push_next_def split: option.splits)

lemma take_Suc_bytes:
  assumes "k < length ch" and "ch ! k = Inr b"
  shows "concat (map bytes_of (take (Suc k) ch)) = concat (map bytes_of (take k ch)) @ b"
  using assms by (simp add: take_Suc_conv_app_nth bytes_of_def)

lemma inv_sink_coordinator:
  assumes "inv_sink ch out s" and "inv_queue ch s" and "inv_ctl W s"
  shows "inv_sink ch out (coordinator s)"
proof -
  note pop = popped_coordinator [OF assms(2)]
  show ?thesis
  proof (cases "pc s")
    case Prime_test
    show ?thesis
      by (rule inv_sink_frame [OF assms(1)])
         (simp_all add: pop Prime_test, simp_all add: coordinator_def Prime_test)
  next
    case Prime_body
    from Prime_body assms(3) obtain c rest where fmt: "formatter s = c # rest"
      by (cases "formatter s") (simp_all add: inv_ctl_def)
    show ?thesis
      by (rule inv_sink_frame [OF assms(1)])
         (simp_all add: pop Prime_body,
          simp_all add: coordinator_def Prime_body Let_def push_next_Cons [OF fmt])
  next
    case Drain_test
    show ?thesis
      by (rule inv_sink_frame [OF assms(1)])
         (simp_all add: pop Drain_test, simp_all add: coordinator_def Drain_test)
  next
    case Poll
    show ?thesis
      by (rule inv_sink_frame [OF assms(1)])
         (simp_all add: pop Poll, simp_all add: coordinator_def Poll split: list.splits)
  next
    case Refill_test
    show ?thesis
      by (rule inv_sink_frame [OF assms(1)])
         (simp_all add: pop Refill_test, simp_all add: coordinator_def Refill_test)
  next
    case Refill_body
    from Refill_body assms(3) obtain c rest where fmt: "formatter s = c # rest"
      by (cases "formatter s") (simp_all add: inv_ctl_def)
    show ?thesis
      by (rule inv_sink_frame [OF assms(1)])
         (simp_all add: pop Refill_body,
          simp_all add: coordinator_def Refill_body Let_def push_next_Cons [OF fmt])
  next
    case Yield_cpu
    show ?thesis
      by (rule inv_sink_frame [OF assms(1)])
         (simp_all add: pop Yield_cpu, simp_all add: coordinator_def Yield_cpu)
  next
    case Get_front
    from Get_front assms(3) obtain f rest where fs: "futures s = f # rest" and r: "ready f"
      by (cases "futures s") (simp_all add: inv_ctl_def front_ready_def)
    note front = inv_queue_front [OF assms(2) fs]
    show ?thesis
    proof (cases "work f")
      case (Inl m)
      then have c: "coordinator s =
          s\<lparr>pc := Thrown (Worker_failure m), trace := trace s @ [Get (task_id f)]\<rparr>"
        by (simp add: coordinator_def Get_front fs get_def r)
      have p: "popped (coordinator s) = popped s" by (simp add: pop Get_front)
      show ?thesis
        using assms(1) front(2) Inl Get_front p
        unfolding inv_sink_def written_count_def p by (auto simp: c)
    next
      case (Inr b)
      then have c: "coordinator s =
          s\<lparr>chunk := b, pc := Pop_front, trace := trace s @ [Get (task_id f)]\<rparr>"
        by (simp add: coordinator_def Get_front fs get_def r)
      have p: "popped (coordinator s) = popped s" by (simp add: pop Get_front)
      show ?thesis
        using assms(1) front(2) Inr Get_front p
        unfolding inv_sink_def written_count_def p by (auto simp: c)
    qed
  next
    case Pop_front
    from Pop_front assms(3) obtain f rest where fs: "futures s = f # rest"
      by (cases "futures s") (simp_all add: inv_ctl_def front_ready_def)
    note front = inv_queue_front [OF assms(2) fs]
    have c: "coordinator s = s\<lparr>futures := rest, pc := Write_chunk, trace := trace s @ [Pop]\<rparr>"
      by (simp add: coordinator_def Pop_front fs)
    have p: "popped (coordinator s) = Suc (popped s)" by (simp add: pop Pop_front fs)
    show ?thesis
      using assms(1) front(4) Pop_front
      unfolding inv_sink_def written_count_def p by (auto simp: c)
  next
    case Write_chunk
    obtain out' e where w: "os_write (os s) (chunk s) = (out', e)"
      by (cases "os_write (os s) (chunk s)")
    have c: "coordinator s =
        s\<lparr>os := out', pc := (case e of None \<Rightarrow> Drain_test | Some x \<Rightarrow> Thrown x),
          trace := trace s @ [Write (chunk s)]\<rparr>"
      by (cases e) (simp_all add: coordinator_def Write_chunk w)
    have p: "popped (coordinator s) = popped s" by (simp add: pop Write_chunk)
    from assms(1) Write_chunk have k: "0 < popped s" "popped s \<le> length ch"
      "ch ! (popped s - 1) = Inr (chunk s)"
      and old: "stream_after out (concat (map bytes_of (take (popped s - 1) ch))) (os s)"
      and ok: "\<forall>c \<in> set (take (popped s - 1) ch). \<exists>b. c = Inr b"
      and quiet: "\<not> throws out \<longrightarrow> \<not> throws (os s)"
      by (auto simp: inv_sink_def written_count_def)
    from k have S: "popped s = Suc (popped s - 1)" and lt: "popped s - 1 < length ch"
      by simp_all
    have cc: "concat (map bytes_of (take (popped s) ch)) =
               concat (map bytes_of (take (popped s - 1) ch)) @ chunk s"
      using take_Suc_bytes [OF lt k(3)] S by simp
    have o: "out' = fst (os_write (os s) (chunk s))"
      using w by simp
    have new: "stream_after out (concat (map bytes_of (take (popped s) ch))) out'"
      unfolding cc o by (rule stream_after_write [OF old])
    have ok': "\<forall>c \<in> set (take (popped s) ch). \<exists>b. c = Inr b"
    proof -
      have "take (popped s) ch = take (popped s - 1) ch @ [ch ! (popped s - 1)]"
        using take_Suc_conv_app_nth [OF lt] S by simp
      then show ?thesis using ok k(3) by auto
    qed
    have e: "e = None \<or> e = Some Ios_failure"
      using os_write_throws [of "os s" "chunk s"] w by simp
    have thr: "e = Some Ios_failure \<longleftrightarrow> throws out'" if "\<not> throws out"
      using os_write_throws_iff [of "os s" "chunk s"] quiet that w by simp
    show ?thesis
    proof (cases e)
      case None
      then have "\<not> throws out \<longrightarrow> \<not> throws out'"
        using thr by simp
      then show ?thesis
        unfolding inv_sink_def written_count_def p
        using new ok' None by (simp add: c)
    next
      case (Some x)
      with e have x: "x = Ios_failure" by simp
      with Some have "\<not> throws out \<longrightarrow> throws out'"
        using thr by simp
      then show ?thesis
        unfolding inv_sink_def written_count_def p
        using new ok' Some x by (simp add: c)
    qed
  next
    case Returned
    with assms show ?thesis by (simp add: coordinator_def)
  next
    case (Thrown e)
    with assms show ?thesis by (simp add: coordinator_def)
  next
    case Contract_violation
    with assms show ?thesis by (simp add: coordinator_def)
  next
    case Undefined
    with assms show ?thesis by (simp add: coordinator_def)
  qed
qed

lemma coordinator_terminal: "terminal (pc s) \<Longrightarrow> coordinator s = s"
  by (cases "pc s") (simp_all add: terminal_def coordinator_def)

lemma same_but_ready_refl: "same_but_ready s s"
  by (simp add: same_but_ready_def)

lemma same_but_ready_worker: "same_but_ready s (worker_finishes i s)"
  by (simp add: same_but_ready_def worker_finishes_def)

lemma same_but_ready_trans:
  "same_but_ready s s' \<Longrightarrow> same_but_ready s' s'' \<Longrightarrow> same_but_ready s s''"
  by (simp add: same_but_ready_def)

lemma run_terminal: "terminal (pc s) \<Longrightarrow> same_but_ready s (run sched s)"
proof (induction sched arbitrary: s)
  case Nil
  then show ?case by (simp add: same_but_ready_refl)
next
  case (Cons a sched)
  show ?case
  proof (cases a)
    case Coordinator
    with Cons show ?thesis by (simp add: coordinator_terminal)
  next
    case (Worker_finishes i)
    have 1: "same_but_ready s (worker_finishes i s)" by (rule same_but_ready_worker)
    then have "terminal (pc (worker_finishes i s))"
      using Cons.prems by (simp add: same_but_ready_def)
    then have "same_but_ready (worker_finishes i s) (run sched (worker_finishes i s))"
      by (rule Cons.IH)
    with 1 show ?thesis
      using Worker_finishes by (simp add: same_but_ready_trans)
  qed
qed

lemma inv_init: "inflight_count_of tc = Some W \<Longrightarrow> inv W ch out (init tc ch out)"
  by (simp add: inv_def inv_ctl_init inv_queue_init inv_sink_init)

lemma inv_exec:
  assumes "inv W ch out s"
  shows "inv W ch out (exec a s)"
proof -
  from assms have 1: "inv_ctl W s" and 2: "inv_queue ch s" and 3: "inv_sink ch out s"
    by (simp_all add: inv_def)
  show ?thesis
  proof (cases a)
    case Coordinator
    then show ?thesis
      using inv_ctl_coordinator [OF 1] inv_queue_coordinator [OF 2 1]
        inv_sink_coordinator [OF 3 2 1]
      by (simp add: inv_def)
  next
    case (Worker_finishes i)
    then show ?thesis
      using inv_ctl_worker [OF 1] inv_queue_worker [OF 2] inv_sink_worker [OF 3]
      by (simp add: inv_def)
  qed
qed

lemma inv_run: "inv W ch out s \<Longrightarrow> inv W ch out (run sched s)"
  by (induction sched arbitrary: s) (simp_all add: inv_exec)

lemma inv_write_body_threads:
  "inflight_count_of tc = Some W \<Longrightarrow> inv W ch out (write_body_threads tc ch out sched)"
  by (simp add: write_body_threads_def inv_run inv_init)

lemma undefined_write_body_threads:
  assumes "inflight_count_of tc = None"
  shows "pc (write_body_threads tc ch out sched) = Undefined"
proof -
  have "pc (init tc ch out) = Undefined" using assms by (simp add: init_def)
  then have "terminal (pc (init tc ch out))" by (simp add: terminal_def)
  from run_terminal [OF this, of sched] \<open>pc (init tc ch out) = Undefined\<close>
  show ?thesis by (simp add: write_body_threads_def same_but_ready_def)
qed

lemma sint_small:
  fixes tc :: "32 word"
  assumes "unat tc \<le> 715827882"
  shows "sint tc = int (unat tc)"
proof -
  have "int (unat tc) \<le> 715827882" using assms by linarith
  then have le: "uint tc \<le> 715827882" by (simp only: uint_nat)
  have ge: "0 \<le> uint tc" by (rule uint_ge_0)
  have p: "(2::int) ^ (LENGTH(32) - Suc 0) = 2147483648" by simp
  have "signed_take_bit (LENGTH(32) - Suc 0) (uint tc) = uint tc"
  proof (rule signed_take_bit_int_eq_self)
    show "- (2 ^ (LENGTH(32) - Suc 0)) \<le> uint tc" unfolding p using ge by linarith
    show "uint tc < 2 ^ (LENGTH(32) - Suc 0)" unfolding p using le by linarith
  qed
  then have "sint tc = uint tc" by (simp only: sint_uint)
  then show ?thesis by (simp only: uint_nat)
qed

lemma inflight_count_of_small:
  assumes "unat tc \<le> 715827882"
  shows "inflight_count_of tc = Some (3 * int (unat tc))"
proof -
  have "int (unat tc) \<le> 715827882" using assms by linarith
  then have r: "INT_MIN \<le> 3 * int (unat tc)" "3 * int (unat tc) \<le> INT_MAX"
    unfolding INT_MIN_def INT_MAX_def by linarith+
  show ?thesis
    unfolding inflight_count_of_def sint_small [OF assms] Let_def using r by simp
qed

lemma worker_finishes_empty: "futures s = [] \<Longrightarrow> worker_finishes i s = s"
  by (simp add: worker_finishes_def)

lemma run_Returned:
  "pc s = Returned \<Longrightarrow> futures s = [] \<Longrightarrow> run sched s = s"
proof (induction sched)
  case Nil
  show ?case by simp
next
  case (Cons a sched)
  then show ?case
    by (cases a) (simp_all add: coordinator_def worker_finishes_empty)
qed

lemma run_Drain_test_empty:
  assumes "pc s = Drain_test" and "futures s = []"
  shows "run sched s = (if count_list sched Coordinator = 0 then s else s\<lparr>pc := Returned\<rparr>)"
  using assms
proof (induction sched)
  case Nil
  show ?case by simp
next
  case (Cons a sched)
  show ?case
  proof (cases a)
    case Coordinator
    have "run sched (s\<lparr>pc := Returned\<rparr>) = s\<lparr>pc := Returned\<rparr>"
      by (rule run_Returned) (simp_all add: Cons.prems)
    then show ?thesis
      using Coordinator Cons.prems by (simp add: coordinator_def)
  next
    case (Worker_finishes i)
    then show ?thesis
      using Cons by (simp add: worker_finishes_empty)
  qed
qed

lemma run_Prime_test_empty:
  assumes "pc s = Prime_test" and "futures s = []" and "\<not> batch_i s < inflight_count s"
  shows "run sched s =
           (if count_list sched Coordinator = 0 then s
            else if count_list sched Coordinator = 1 then s\<lparr>pc := Drain_test\<rparr>
            else s\<lparr>pc := Returned\<rparr>)"
  using assms
proof (induction sched)
  case Nil
  show ?case by simp
next
  case (Cons a sched)
  show ?case
  proof (cases a)
    case Coordinator
    have "run sched (s\<lparr>pc := Drain_test\<rparr>) =
            (if count_list sched Coordinator = 0 then s\<lparr>pc := Drain_test\<rparr>
             else s\<lparr>pc := Drain_test\<rparr>\<lparr>pc := Returned\<rparr>)"
      by (rule run_Drain_test_empty) (simp_all add: Cons.prems)
    then show ?thesis
      using Coordinator Cons.prems by (simp add: coordinator_def)
  next
    case (Worker_finishes i)
    then show ?thesis
      using Cons by (simp add: worker_finishes_empty)
  qed
qed

lemma nat_3_unat: "nat (3 * int n) = 3 * n"
  by linarith

lemma unfinished_le: "unfinished s \<le> length (futures s)"
  by (simp add: unfinished_def)

lemma unfinished_front_ready: "front_ready s \<Longrightarrow> Suc (unfinished s) \<le> length (futures s)"
  by (cases "futures s") (simp_all add: unfinished_def front_ready_def le_imp_less_Suc)

lemma inv_ctl_cases:
  assumes "inv_ctl W s"
  shows "length (futures s) \<le> nat W \<or>
         (front_ready s \<and> length (futures s) \<le> nat W + 1 \<and>
          (pc s = Get_front \<or> pc s = Pop_front \<or> (\<exists>m. pc s = Thrown (Worker_failure m))))"
proof (cases "pc s")
  case Prime_test
  with assms have "int (length (futures s)) \<le> max 0 W" by (simp add: inv_ctl_def)
  then show ?thesis by linarith
next
  case Prime_body
  with assms have "int (length (futures s)) < W" by (simp add: inv_ctl_def)
  then show ?thesis by linarith
next
  case (Thrown e)
  with assms show ?thesis
    by (cases e) (simp_all add: inv_ctl_def window_ok_def refilled_ok_def)
qed (use assms in \<open>simp_all add: inv_ctl_def window_ok_def refilled_ok_def\<close>)

lemma inv_ctl_length:
  assumes "inv_ctl W s"
  shows "length (futures s) \<le> nat W + 1"
    and "length (futures s) = nat W + 1 \<Longrightarrow>
           pc s = Get_front \<or> pc s = Pop_front \<or> (\<exists>m. pc s = Thrown (Worker_failure m))"
proof -
  note c = inv_ctl_cases [OF assms]
  from c show "length (futures s) \<le> nat W + 1" by auto
  from c show "pc s = Get_front \<or> pc s = Pop_front \<or> (\<exists>m. pc s = Thrown (Worker_failure m))"
    if "length (futures s) = nat W + 1"
    using that by auto
qed

lemma inv_ctl_unfinished:
  assumes "inv_ctl W s"
  shows "unfinished s \<le> nat W"
    and "pc s = Write_chunk \<or> \<not> writing_back (pc s) \<Longrightarrow> length (futures s) \<le> nat W"
proof -
  note c = inv_ctl_cases [OF assms]
  from c unfinished_le [of s] unfinished_front_ready [of s]
  show "unfinished s \<le> nat W" by auto
  from c show "length (futures s) \<le> nat W"
    if "pc s = Write_chunk \<or> \<not> writing_back (pc s)"
    using that by (auto simp: writing_back_def)
qed

subsection \<open>The steps of the coordinator, in a reachable state\<close>

lemma coordinator_push:
  assumes "inv_ctl W s" and "pc s = Prime_body \<or> pc s = Refill_body"
  obtains c rest where "formatter s = c # rest"
    and "coordinator s =
           s\<lparr>formatter := rest,
             futures := futures s @ [submit (submitted s) c],
             submitted := Suc (submitted s),
             trace := trace s @ [Next_chunk, Submit (submitted s)],
             batch_i := (if pc s = Prime_body then batch_i s + 1 else batch_i s),
             pc := (if pc s = Prime_body then Prime_test else Get_front)\<rparr>"
proof -
  from assms obtain c rest where fmt: "formatter s = c # rest"
    by (cases "formatter s") (auto simp: inv_ctl_def)
  from assms(2) have "coordinator s =
           s\<lparr>formatter := rest,
             futures := futures s @ [submit (submitted s) c],
             submitted := Suc (submitted s),
             trace := trace s @ [Next_chunk, Submit (submitted s)],
             batch_i := (if pc s = Prime_body then batch_i s + 1 else batch_i s),
             pc := (if pc s = Prime_body then Prime_test else Get_front)\<rparr>"
    by (auto simp: coordinator_def push_next_Cons [OF fmt] Let_def)
  with fmt that show thesis by blast
qed

lemma coordinator_get:
  assumes "inv_ctl W s" and "pc s = Get_front"
  obtains f rest where "futures s = f # rest" and "ready f"
    and "coordinator s =
           (case work f of
              Inl msg \<Rightarrow> s\<lparr>pc := Thrown (Worker_failure msg), trace := trace s @ [Get (task_id f)]\<rparr>
            | Inr bytes \<Rightarrow>
                s\<lparr>chunk := bytes, pc := Pop_front, trace := trace s @ [Get (task_id f)]\<rparr>)"
proof -
  from assms obtain f rest where fs: "futures s = f # rest" and r: "ready f"
    by (cases "futures s") (simp_all add: inv_ctl_def front_ready_def)
  from assms(2) have "coordinator s =
           (case work f of
              Inl msg \<Rightarrow> s\<lparr>pc := Thrown (Worker_failure msg), trace := trace s @ [Get (task_id f)]\<rparr>
            | Inr bytes \<Rightarrow>
                s\<lparr>chunk := bytes, pc := Pop_front, trace := trace s @ [Get (task_id f)]\<rparr>)"
    by (simp add: coordinator_def fs get_def r)
  with fs r that show thesis by blast
qed

lemma coordinator_pop:
  assumes "inv_ctl W s" and "pc s = Pop_front"
  obtains f rest where "futures s = f # rest"
    and "coordinator s = s\<lparr>futures := rest, pc := Write_chunk, trace := trace s @ [Pop]\<rparr>"
proof -
  from assms obtain f rest where fs: "futures s = f # rest"
    by (cases "futures s") (simp_all add: inv_ctl_def front_ready_def)
  from assms(2) have "coordinator s =
      s\<lparr>futures := rest, pc := Write_chunk, trace := trace s @ [Pop]\<rparr>"
    by (simp add: coordinator_def fs)
  with fs that show thesis by blast
qed

lemma coordinator_poll:
  assumes "inv_ctl W s" and "pc s = Poll"
  obtains f rest where "futures s = f # rest"
    and "coordinator s =
           s\<lparr>pc := (if ready f then Refill_test else Yield_cpu),
             trace := trace s @ [Is_ready (task_id f) (ready f)]\<rparr>"
proof -
  from assms obtain f rest where fs: "futures s = f # rest"
    by (cases "futures s") (simp_all add: inv_ctl_def)
  from assms(2) have "coordinator s =
           s\<lparr>pc := (if ready f then Refill_test else Yield_cpu),
             trace := trace s @ [Is_ready (task_id f) (ready f)]\<rparr>"
    by (simp add: coordinator_def fs is_ready_def)
  with fs that show thesis by blast
qed

lemma coordinator_write:
  assumes "pc s = Write_chunk"
  shows "trace (coordinator s) = trace s @ [Write (chunk s)]"
    and "pc (coordinator s) = Drain_test \<or> pc (coordinator s) = Thrown Ios_failure"
    and "futures (coordinator s) = futures s" and "formatter (coordinator s) = formatter s"
    and "submitted (coordinator s) = submitted s"
proof -
  obtain out' e where w: "os_write (os s) (chunk s) = (out', e)"
    by (cases "os_write (os s) (chunk s)")
  have c: "coordinator s =
        s\<lparr>os := out', pc := (case e of None \<Rightarrow> Drain_test | Some x \<Rightarrow> Thrown x),
          trace := trace s @ [Write (chunk s)]\<rparr>"
    by (cases e) (simp_all add: coordinator_def assms w)
  show "trace (coordinator s) = trace s @ [Write (chunk s)]" by (simp add: c)
  show "futures (coordinator s) = futures s" by (simp add: c)
  show "formatter (coordinator s) = formatter s" by (simp add: c)
  show "submitted (coordinator s) = submitted s" by (simp add: c)
  show "pc (coordinator s) = Drain_test \<or> pc (coordinator s) = Thrown Ios_failure"
  proof (cases e)
    case None
    then show ?thesis by (simp add: c)
  next
    case (Some x)
    with os_write_throws [of "os s" "chunk s"] w have "x = Ios_failure" by simp
    with Some show ?thesis by (simp add: c)
  qed
qed

subsection \<open>The monitors\<close>

lemma monitor_append:
  "monitor st q (es @ es') =
     (case monitor st q es of None \<Rightarrow> None | Some q' \<Rightarrow> monitor st q' es')"
  by (induction es arbitrary: q) (simp_all split: option.splits)

lemma inv_guard_init: "inv_guard (init tc ch out)"
  by (simp add: inv_guard_def init_def split: option.splits)

lemma inv_guard_worker: "inv_guard s \<Longrightarrow> inv_guard (worker_finishes i s)"
  by (simp add: inv_guard_def worker_finishes_def)

lemma inv_guard_coordinator:
  assumes "inv_guard s" and "inv_ctl W s"
  shows "inv_guard (coordinator s)"
proof (cases "pc s")
  case Prime_test
  with assms(1) show ?thesis
    by (simp add: inv_guard_def coordinator_def monitor_append guard_step_def)
next
  case Prime_body
  then have "pc s = Prime_body \<or> pc s = Refill_body" by simp
  with assms(2) obtain c rest where "formatter s = c # rest" and "coordinator s =
           s\<lparr>formatter := rest,
             futures := futures s @ [submit (submitted s) c],
             submitted := Suc (submitted s),
             trace := trace s @ [Next_chunk, Submit (submitted s)],
             batch_i := (if pc s = Prime_body then batch_i s + 1 else batch_i s),
             pc := (if pc s = Prime_body then Prime_test else Get_front)\<rparr>"
    by (rule coordinator_push)
  with assms(1) Prime_body show ?thesis
    by (simp add: inv_guard_def monitor_append guard_step_def)
next
  case Drain_test
  with assms(1) show ?thesis
    by (simp add: inv_guard_def coordinator_def)
next
  case Poll
  from assms(2) Poll obtain f rest where "futures s = f # rest" and "coordinator s =
           s\<lparr>pc := (if ready f then Refill_test else Yield_cpu),
             trace := trace s @ [Is_ready (task_id f) (ready f)]\<rparr>"
    by (rule coordinator_poll)
  with assms(1) Poll show ?thesis
    by (simp add: inv_guard_def monitor_append guard_step_def)
next
  case Refill_test
  with assms(1) show ?thesis
    by (simp add: inv_guard_def coordinator_def monitor_append guard_step_def)
next
  case Refill_body
  then have "pc s = Prime_body \<or> pc s = Refill_body" by simp
  with assms(2) obtain c rest where "formatter s = c # rest" and "coordinator s =
           s\<lparr>formatter := rest,
             futures := futures s @ [submit (submitted s) c],
             submitted := Suc (submitted s),
             trace := trace s @ [Next_chunk, Submit (submitted s)],
             batch_i := (if pc s = Prime_body then batch_i s + 1 else batch_i s),
             pc := (if pc s = Prime_body then Prime_test else Get_front)\<rparr>"
    by (rule coordinator_push)
  with assms(1) Refill_body show ?thesis
    by (simp add: inv_guard_def monitor_append guard_step_def)
next
  case Get_front
  from assms(2) Get_front obtain f rest where "futures s = f # rest" and "ready f"
    and "coordinator s =
           (case work f of
              Inl msg \<Rightarrow> s\<lparr>pc := Thrown (Worker_failure msg), trace := trace s @ [Get (task_id f)]\<rparr>
            | Inr bytes \<Rightarrow>
                s\<lparr>chunk := bytes, pc := Pop_front, trace := trace s @ [Get (task_id f)]\<rparr>)"
    by (rule coordinator_get)
  with assms(1) Get_front show ?thesis
    by (cases "work f") (simp_all add: inv_guard_def monitor_append guard_step_def)
next
  case Pop_front
  from assms(2) Pop_front obtain f rest where "futures s = f # rest" and
    "coordinator s = s\<lparr>futures := rest, pc := Write_chunk, trace := trace s @ [Pop]\<rparr>"
    by (rule coordinator_pop)
  with assms(1) Pop_front show ?thesis
    by (simp add: inv_guard_def monitor_append guard_step_def)
next
  case Write_chunk
  from coordinator_write(1,2) [OF Write_chunk] assms(1) Write_chunk show ?thesis
    by (auto simp: inv_guard_def monitor_append guard_step_def)
next
  case Yield_cpu
  with assms(1) show ?thesis
    by (simp add: inv_guard_def coordinator_def monitor_append guard_step_def)
next
  case Returned
  with assms show ?thesis by (simp add: coordinator_def)
next
  case (Thrown e)
  with assms show ?thesis by (simp add: coordinator_def)
next
  case Contract_violation
  with assms show ?thesis by (simp add: coordinator_def)
next
  case Undefined
  with assms show ?thesis by (simp add: coordinator_def)
qed

lemma inv_guard_run:
  "inv_guard s \<Longrightarrow> inv_ctl W s \<Longrightarrow> inv_guard (run sched s)"
proof (induction sched arbitrary: s)
  case Nil
  then show ?case by simp
next
  case (Cons a sched)
  show ?case
  proof (cases a)
    case Coordinator
    with Cons show ?thesis
      by (simp add: inv_guard_coordinator inv_ctl_coordinator)
  next
    case (Worker_finishes i)
    with Cons show ?thesis
      by (simp add: inv_guard_worker inv_ctl_worker)
  qed
qed

lemma trace_undefined:
  assumes "inflight_count_of tc = None"
  shows "trace (write_body_threads tc ch out sched) = []"
proof -
  have "pc (init tc ch out) = Undefined" using assms by (simp add: init_def)
  then have "terminal (pc (init tc ch out))" by (simp add: terminal_def)
  from run_terminal [OF this, of sched]
  show ?thesis by (simp add: write_body_threads_def same_but_ready_def init_def)
qed

lemma inv_stage_init: "inv_stage (init tc ch out)"
  by (simp add: inv_stage_def init_def stage_of_def split: option.splits)

lemma inv_stage_worker: "inv_stage s \<Longrightarrow> inv_stage (worker_finishes i s)"
  by (simp add: inv_stage_def worker_finishes_def)

lemma inv_stage_coordinator:
  assumes "inv_stage s" and "inv_ctl W s"
  shows "inv_stage (coordinator s)"
proof (cases "pc s")
  case Prime_test
  with assms(1) show ?thesis
    by (simp add: inv_stage_def coordinator_def monitor_append drain_step_def stage_of_def)
next
  case Prime_body
  then have "pc s = Prime_body \<or> pc s = Refill_body" by simp
  with assms(2) obtain c rest where "formatter s = c # rest" and "coordinator s =
           s\<lparr>formatter := rest,
             futures := futures s @ [submit (submitted s) c],
             submitted := Suc (submitted s),
             trace := trace s @ [Next_chunk, Submit (submitted s)],
             batch_i := (if pc s = Prime_body then batch_i s + 1 else batch_i s),
             pc := (if pc s = Prime_body then Prime_test else Get_front)\<rparr>"
    by (rule coordinator_push)
  with assms(1) Prime_body show ?thesis
    by (simp add: inv_stage_def monitor_append drain_step_def stage_of_def)
next
  case Drain_test
  with assms(1) show ?thesis
    by (simp add: inv_stage_def coordinator_def stage_of_def)
next
  case Poll
  from assms(2) Poll obtain f rest where "futures s = f # rest" and "coordinator s =
           s\<lparr>pc := (if ready f then Refill_test else Yield_cpu),
             trace := trace s @ [Is_ready (task_id f) (ready f)]\<rparr>"
    by (rule coordinator_poll)
  with assms(1) Poll show ?thesis
    by (simp add: inv_stage_def monitor_append drain_step_def stage_of_def)
next
  case Refill_test
  with assms(1) show ?thesis
    by (simp add: inv_stage_def coordinator_def monitor_append drain_step_def stage_of_def)
next
  case Refill_body
  then have "pc s = Prime_body \<or> pc s = Refill_body" by simp
  with assms(2) obtain c rest where "formatter s = c # rest" and "coordinator s =
           s\<lparr>formatter := rest,
             futures := futures s @ [submit (submitted s) c],
             submitted := Suc (submitted s),
             trace := trace s @ [Next_chunk, Submit (submitted s)],
             batch_i := (if pc s = Prime_body then batch_i s + 1 else batch_i s),
             pc := (if pc s = Prime_body then Prime_test else Get_front)\<rparr>"
    by (rule coordinator_push)
  with assms(1) Refill_body show ?thesis
    by (simp add: inv_stage_def monitor_append drain_step_def stage_of_def)
next
  case Get_front
  from assms(2) Get_front obtain f rest where "futures s = f # rest" and "ready f"
    and "coordinator s =
           (case work f of
              Inl msg \<Rightarrow> s\<lparr>pc := Thrown (Worker_failure msg), trace := trace s @ [Get (task_id f)]\<rparr>
            | Inr bytes \<Rightarrow>
                s\<lparr>chunk := bytes, pc := Pop_front, trace := trace s @ [Get (task_id f)]\<rparr>)"
    by (rule coordinator_get)
  with assms(1) Get_front show ?thesis
    by (cases "work f") (simp_all add: inv_stage_def monitor_append drain_step_def stage_of_def)
next
  case Pop_front
  from assms(2) Pop_front obtain f rest where "futures s = f # rest" and
    "coordinator s = s\<lparr>futures := rest, pc := Write_chunk, trace := trace s @ [Pop]\<rparr>"
    by (rule coordinator_pop)
  with assms(1) Pop_front show ?thesis
    by (simp add: inv_stage_def monitor_append drain_step_def stage_of_def)
next
  case Write_chunk
  from coordinator_write(1,2) [OF Write_chunk] assms(1) Write_chunk show ?thesis
    by (auto simp: inv_stage_def monitor_append drain_step_def stage_of_def)
next
  case Yield_cpu
  with assms(1) show ?thesis
    by (simp add: inv_stage_def coordinator_def monitor_append drain_step_def stage_of_def)
next
  case Returned
  with assms show ?thesis by (simp add: coordinator_def)
next
  case (Thrown e)
  with assms show ?thesis by (simp add: coordinator_def)
next
  case Contract_violation
  with assms show ?thesis by (simp add: coordinator_def)
next
  case Undefined
  with assms show ?thesis by (simp add: coordinator_def)
qed

lemma inv_stage_run:
  "inv_stage s \<Longrightarrow> inv_ctl W s \<Longrightarrow> inv_stage (run sched s)"
proof (induction sched arbitrary: s)
  case Nil
  then show ?case by simp
next
  case (Cons a sched)
  show ?case
  proof (cases a)
    case Coordinator
    with Cons show ?thesis
      by (simp add: inv_stage_coordinator inv_ctl_coordinator)
  next
    case (Worker_finishes i)
    with Cons show ?thesis
      by (simp add: inv_stage_worker inv_ctl_worker)
  qed
qed

lemma popped_update [simp]:
  "popped (s\<lparr>pc := p\<rparr>) = popped s"
  "popped (s\<lparr>trace := t\<rparr>) = popped s"
  "popped (s\<lparr>chunk := c\<rparr>) = popped s"
  "popped (s\<lparr>os := out\<rparr>) = popped s"
  "popped (s\<lparr>batch_i := b\<rparr>) = popped s"
  by (simp_all add: popped_def)

lemma inv_poll_init: "inv_poll (init tc ch out)"
  by (simp add: inv_poll_def init_def popped_def expect_ok_def split: option.splits)

lemma expect_ok_worker: "expect_ok (worker_finishes i s) x = expect_ok s x"
  by (cases x) (simp_all add: expect_ok_def, simp_all add: worker_finishes_def)

lemma inv_poll_worker: "inv_poll s \<Longrightarrow> inv_poll (worker_finishes i s)"
  unfolding inv_poll_def expect_ok_worker popped_worker
  by (simp add: worker_finishes_def)

lemma expect_ok_Anything:
  assumes "expect_ok s x"
    and "pc s \<noteq> Yield_cpu" and "pc s \<noteq> Drain_test" and "pc s \<noteq> Poll"
  shows "x = Anything"
  using assms by (cases x) (simp_all add: expect_ok_def)

lemma inv_pollI:
  assumes "monitor poll_step (0, Anything) (trace s) = Some (popped s, x)" and "expect_ok s x"
  shows "inv_poll s"
  using assms unfolding inv_poll_def by blast

lemma inv_poll_coordinator:
  assumes "inv_poll s" and "inv_ctl W s" and "inv_queue ch s"
  shows "inv_poll (coordinator s)"
proof -
  from assms(1) obtain x
    where m: "monitor poll_step (0, Anything) (trace s) = Some (popped s, x)"
      and x: "expect_ok s x"
    unfolding inv_poll_def by blast
  note pop = popped_coordinator [OF assms(3)]
  show ?thesis
  proof (cases "pc s")
    case Prime_test
    with x have a: "x = Anything" by (simp add: expect_ok_Anything)
    show ?thesis
      by (rule inv_pollI [where x = Anything])
         (use Prime_test in \<open>simp_all add: pop, simp_all add: coordinator_def monitor_append m a
             poll_step_def expect_ok_def\<close>)
  next
    case Prime_body
    with x have a: "x = Anything" by (simp add: expect_ok_Anything)
    from Prime_body have "pc s = Prime_body \<or> pc s = Refill_body" by simp
    with assms(2) obtain c rest where "formatter s = c # rest" and c: "coordinator s =
           s\<lparr>formatter := rest,
             futures := futures s @ [submit (submitted s) c],
             submitted := Suc (submitted s),
             trace := trace s @ [Next_chunk, Submit (submitted s)],
             batch_i := (if pc s = Prime_body then batch_i s + 1 else batch_i s),
             pc := (if pc s = Prime_body then Prime_test else Get_front)\<rparr>"
      by (rule coordinator_push)
    have p: "popped (coordinator s) = popped s" by (simp add: pop Prime_body)
    show ?thesis
      by (rule inv_pollI [where x = Anything], unfold p)
         (simp_all add: c monitor_append m a poll_step_def expect_ok_def Prime_body)
  next
    case Drain_test
    have p: "popped (coordinator s) = popped s" by (simp add: pop Drain_test)
    show ?thesis
      by (rule inv_pollI [where x = x], unfold p)
         (use x Drain_test in \<open>auto simp: coordinator_def m expect_ok_def popped_def
             split: expect.splits\<close>)
  next
    case Poll
    from assms(2) Poll obtain f rest where fs: "futures s = f # rest" and c: "coordinator s =
           s\<lparr>pc := (if ready f then Refill_test else Yield_cpu),
             trace := trace s @ [Is_ready (task_id f) (ready f)]\<rparr>"
      by (rule coordinator_poll)
    have id: "task_id f = popped s" by (rule inv_queue_front(1) [OF assms(3) fs])
    have p: "popped (coordinator s) = popped s" by (simp add: pop Poll)
    from x Poll have xx: "x = Anything \<or> x = Poll_next (popped s)"
      by (cases x) (simp_all add: expect_ok_def)
    show ?thesis
      by (rule inv_pollI [where x = "if ready f then Anything else Yield_next (popped s)"], unfold p)
         (use xx in \<open>auto simp: c monitor_append m poll_step_def expect_ok_def id\<close>)
  next
    case Refill_test
    with x have a: "x = Anything" by (simp add: expect_ok_Anything)
    show ?thesis
      by (rule inv_pollI [where x = Anything])
         (use Refill_test in \<open>simp_all add: pop, simp_all add: coordinator_def monitor_append m a
             poll_step_def expect_ok_def\<close>)
  next
    case Refill_body
    with x have a: "x = Anything" by (simp add: expect_ok_Anything)
    from Refill_body have "pc s = Prime_body \<or> pc s = Refill_body" by simp
    with assms(2) obtain c rest where "formatter s = c # rest" and c: "coordinator s =
           s\<lparr>formatter := rest,
             futures := futures s @ [submit (submitted s) c],
             submitted := Suc (submitted s),
             trace := trace s @ [Next_chunk, Submit (submitted s)],
             batch_i := (if pc s = Prime_body then batch_i s + 1 else batch_i s),
             pc := (if pc s = Prime_body then Prime_test else Get_front)\<rparr>"
      by (rule coordinator_push)
    have p: "popped (coordinator s) = popped s" by (simp add: pop Refill_body)
    show ?thesis
      by (rule inv_pollI [where x = Anything], unfold p)
         (simp_all add: c monitor_append m a poll_step_def expect_ok_def Refill_body)
  next
    case Get_front
    with x have a: "x = Anything" by (simp add: expect_ok_Anything)
    from assms(2) Get_front obtain f rest where "futures s = f # rest" and "ready f"
      and c: "coordinator s =
           (case work f of
              Inl msg \<Rightarrow> s\<lparr>pc := Thrown (Worker_failure msg), trace := trace s @ [Get (task_id f)]\<rparr>
            | Inr bytes \<Rightarrow>
                s\<lparr>chunk := bytes, pc := Pop_front, trace := trace s @ [Get (task_id f)]\<rparr>)"
      by (rule coordinator_get)
    have p: "popped (coordinator s) = popped s" by (simp add: pop Get_front)
    show ?thesis
      by (rule inv_pollI [where x = Anything], unfold p)
         (cases "work f"; simp add: c monitor_append m a poll_step_def expect_ok_def)+
  next
    case Pop_front
    with x have a: "x = Anything" by (simp add: expect_ok_Anything)
    from assms(2) Pop_front obtain f rest where fs: "futures s = f # rest" and
      c: "coordinator s = s\<lparr>futures := rest, pc := Write_chunk, trace := trace s @ [Pop]\<rparr>"
      by (rule coordinator_pop)
    have p: "popped (coordinator s) = Suc (popped s)" by (simp add: pop Pop_front fs)
    show ?thesis
      by (rule inv_pollI [where x = Anything], unfold p)
         (simp_all add: c monitor_append m a poll_step_def expect_ok_def)
  next
    case Write_chunk
    with x have a: "x = Anything" by (simp add: expect_ok_Anything)
    have p: "popped (coordinator s) = popped s" by (simp add: pop Write_chunk)
    note w = coordinator_write(1,2) [OF Write_chunk]
    show ?thesis
      by (rule inv_pollI [where x = Anything], unfold p)
         (use w in \<open>auto simp: monitor_append m a poll_step_def expect_ok_def\<close>)
  next
    case Yield_cpu
    with x have a: "x = Yield_next (popped s)"
      by (cases x) (simp_all add: expect_ok_def)
    from assms(2) Yield_cpu have ne: "futures s \<noteq> []" by (simp add: inv_ctl_def)
    have p: "popped (coordinator s) = popped s" by (simp add: pop Yield_cpu)
    show ?thesis
      by (rule inv_pollI [where x = "Poll_next (popped s)"], unfold p)
         (use ne Yield_cpu in \<open>simp_all add: coordinator_def monitor_append m a poll_step_def
             expect_ok_def\<close>)
  next
    case Returned
    with assms show ?thesis by (simp add: coordinator_def)
  next
    case (Thrown e)
    with assms show ?thesis by (simp add: coordinator_def)
  next
    case Contract_violation
    with assms show ?thesis by (simp add: coordinator_def)
  next
    case Undefined
    with assms show ?thesis by (simp add: coordinator_def)
  qed
qed

lemma inv_poll_run:
  "inv_poll s \<Longrightarrow> inv W ch out s \<Longrightarrow> inv_poll (run sched s)"
proof (induction sched arbitrary: s)
  case Nil
  then show ?case by simp
next
  case (Cons a sched)
  from Cons.prems(2) have i: "inv_ctl W s" "inv_queue ch s" by (simp_all add: inv_def)
  have "inv_poll (exec a s)"
    using Cons.prems(1) i
    by (cases a) (simp_all add: inv_poll_coordinator inv_poll_worker)
  moreover have "inv W ch out (exec a s)" by (rule inv_exec [OF Cons.prems(2)])
  ultimately show ?case using Cons.IH by simp
qed

lemma poll_step_count:
  "poll_step (k, x) e = Some (k', x') \<Longrightarrow> k' = k + (if e = Pop then 1 else 0)"
  by (cases e) (auto simp: poll_step_def split: if_splits expect.splits)

lemma monitor_poll_count:
  "monitor poll_step (k, x) es = Some (k', x') \<Longrightarrow> k' = k + count_list es Pop"
proof (induction es arbitrary: k x)
  case Nil
  then show ?case by simp
next
  case (Cons e es)
  from Cons.prems obtain k1 x1 where 1: "poll_step (k, x) e = Some (k1, x1)"
    and 2: "monitor poll_step (k1, x1) es = Some (k', x')"
    by (cases "poll_step (k, x) e") auto
  from poll_step_count [OF 1] Cons.IH [OF 2] show ?case by simp
qed

lemma yield_and_poll_again:
  assumes "inv_ctl W s" and "pc s = Poll" and "\<not> front_ready s"
  shows "run [Coordinator, Coordinator, Coordinator] s =
           s\<lparr>trace := trace s @ [Is_ready (front_id s) False, Yield]\<rparr>"
proof -
  from assms(1,2) obtain f rest where fs: "futures s = f # rest"
    by (cases "futures s") (simp_all add: inv_ctl_def)
  with assms(3) have nr: "\<not> ready f" by (simp add: front_ready_def)
  have id: "front_id s = task_id f" by (simp add: front_id_def fs)
  have 1: "coordinator s = s\<lparr>pc := Yield_cpu, trace := trace s @ [Is_ready (task_id f) False]\<rparr>"
    by (simp add: coordinator_def assms(2) fs is_ready_def nr)
  have 2: "coordinator (s\<lparr>pc := Yield_cpu, trace := trace s @ [Is_ready (task_id f) False]\<rparr>) =
             s\<lparr>pc := Drain_test, trace := trace s @ [Is_ready (task_id f) False, Yield]\<rparr>"
    by (simp add: coordinator_def)
  have 3: "coordinator (s\<lparr>pc := Drain_test, trace := trace s @ [Is_ready (task_id f) False, Yield]\<rparr>) =
             s\<lparr>pc := Poll, trace := trace s @ [Is_ready (task_id f) False, Yield]\<rparr>"
    by (simp add: coordinator_def fs)
  have "s\<lparr>pc := Poll, trace := trace s @ [Is_ready (task_id f) False, Yield]\<rparr> =
          s\<lparr>trace := trace s @ [Is_ready (task_id f) False, Yield]\<rparr>"
    using assms(2) by simp
  then show ?thesis by (simp add: 1 2 3 id)
qed

subsection \<open>The call that raised\<close>

lemma inv_thrown_init: "inv_thrown (init tc ch out)"
  by (simp add: inv_thrown_def init_def split: option.splits)

lemma inv_thrown_worker: "inv_thrown s \<Longrightarrow> inv_thrown (worker_finishes i s)"
  unfolding inv_thrown_def popped_worker by (simp add: worker_finishes_def)

lemma inv_thrown_coordinator:
  assumes "inv_thrown s" and "inv_ctl W s" and "inv_queue ch s"
  shows "inv_thrown (coordinator s)"
proof (cases "pc s")
  case Prime_body
  then have "pc s = Prime_body \<or> pc s = Refill_body" by simp
  with assms(2) obtain c rest where "formatter s = c # rest" and "coordinator s =
           s\<lparr>formatter := rest,
             futures := futures s @ [submit (submitted s) c],
             submitted := Suc (submitted s),
             trace := trace s @ [Next_chunk, Submit (submitted s)],
             batch_i := (if pc s = Prime_body then batch_i s + 1 else batch_i s),
             pc := (if pc s = Prime_body then Prime_test else Get_front)\<rparr>"
    by (rule coordinator_push)
  with Prime_body show ?thesis by (simp add: inv_thrown_def)
next
  case Poll
  from assms(2) Poll obtain f rest where "futures s = f # rest" and "coordinator s =
           s\<lparr>pc := (if ready f then Refill_test else Yield_cpu),
             trace := trace s @ [Is_ready (task_id f) (ready f)]\<rparr>"
    by (rule coordinator_poll)
  then show ?thesis by (simp add: inv_thrown_def)
next
  case Refill_body
  then have "pc s = Prime_body \<or> pc s = Refill_body" by simp
  with assms(2) obtain c rest where "formatter s = c # rest" and "coordinator s =
           s\<lparr>formatter := rest,
             futures := futures s @ [submit (submitted s) c],
             submitted := Suc (submitted s),
             trace := trace s @ [Next_chunk, Submit (submitted s)],
             batch_i := (if pc s = Prime_body then batch_i s + 1 else batch_i s),
             pc := (if pc s = Prime_body then Prime_test else Get_front)\<rparr>"
    by (rule coordinator_push)
  with Refill_body show ?thesis by (simp add: inv_thrown_def)
next
  case Get_front
  from assms(2) Get_front obtain f rest where fs: "futures s = f # rest" and "ready f"
    and c: "coordinator s =
           (case work f of
              Inl msg \<Rightarrow> s\<lparr>pc := Thrown (Worker_failure msg), trace := trace s @ [Get (task_id f)]\<rparr>
            | Inr bytes \<Rightarrow>
                s\<lparr>chunk := bytes, pc := Pop_front, trace := trace s @ [Get (task_id f)]\<rparr>)"
    by (rule coordinator_get)
  have id: "task_id f = popped s" by (rule inv_queue_front(1) [OF assms(3) fs])
  show ?thesis
    by (cases "work f") (simp_all add: c inv_thrown_def id)
next
  case Pop_front
  from assms(2) Pop_front obtain f rest where "futures s = f # rest" and
    "coordinator s = s\<lparr>futures := rest, pc := Write_chunk, trace := trace s @ [Pop]\<rparr>"
    by (rule coordinator_pop)
  then show ?thesis by (simp add: inv_thrown_def)
next
  case Write_chunk
  from coordinator_write(2) [OF Write_chunk] show ?thesis
    by (auto simp: inv_thrown_def)
next
  case Returned
  with assms show ?thesis by (simp add: coordinator_def)
next
  case (Thrown e)
  with assms show ?thesis by (simp add: coordinator_def)
next
  case Contract_violation
  with assms show ?thesis by (simp add: coordinator_def)
next
  case Undefined
  with assms show ?thesis by (simp add: coordinator_def)
qed (simp_all add: inv_thrown_def coordinator_def)

lemma inv_thrown_run:
  "inv_thrown s \<Longrightarrow> inv W ch out s \<Longrightarrow> inv_thrown (run sched s)"
proof (induction sched arbitrary: s)
  case Nil
  then show ?case by simp
next
  case (Cons a sched)
  from Cons.prems(2) have i: "inv_ctl W s" "inv_queue ch s" by (simp_all add: inv_def)
  have "inv_thrown (exec a s)"
    using Cons.prems(1) i
    by (cases a) (simp_all add: inv_thrown_coordinator inv_thrown_worker)
  moreover have "inv W ch out (exec a s)" by (rule inv_exec [OF Cons.prems(2)])
  ultimately show ?case using Cons.IH by simp
qed

subsection \<open>Every run can be continued to its end\<close>

lemma step_decreases:
  assumes "\<not> terminal (pc s)"
  shows "terminal (pc (front_done_then_step s)) \<or> work_left (front_done_then_step s) < work_left s"
proof -
  let ?w = "worker_finishes (front_id s) s"
  have st: "front_done_then_step s = coordinator ?w"
    by (simp add: front_done_then_step_def)
  have same: "pc ?w = pc s" "formatter ?w = formatter s" "length (futures ?w) = length (futures s)"
    "batch_i ?w = batch_i s" "inflight_count ?w = inflight_count s"
    by (simp_all add: worker_finishes_def)
  have front: "\<exists>f rest. futures ?w = f # rest \<and> ready f" if "futures s \<noteq> []"
    using that by (cases "futures s") (simp_all add: worker_finishes_def front_id_def finish_def)
  have wl: "work_left s = 20 * length (formatter ?w) + 10 * length (futures ?w) + rank (pc s)"
    by (simp add: work_left_def same)
  show ?thesis
  proof (cases "pc s")
    case Prime_test
    then show ?thesis
      unfolding st wl using same(1)
      by (simp add: coordinator_def work_left_def rank_def)
  next
    case Prime_body
    then show ?thesis
      unfolding st wl using same(1)
      by (cases "formatter ?w")
         (simp_all add: coordinator_def work_left_def rank_def push_next_def next_chunk_def
            Let_def terminal_def)
  next
    case Drain_test
    then show ?thesis
      unfolding st wl using same(1)
      by (simp add: coordinator_def work_left_def rank_def terminal_def)
  next
    case Poll
    show ?thesis
    proof (cases "futures s = []")
      case True
      with Poll same(1) show ?thesis
        unfolding st by (simp add: coordinator_def terminal_def worker_finishes_def)
    next
      case False
      from front [OF False] obtain f rest where "futures ?w = f # rest" "ready f" by blast
      with Poll same(1) show ?thesis
        unfolding st wl by (simp add: coordinator_def work_left_def rank_def is_ready_def)
    qed
  next
    case Refill_test
    then show ?thesis
      unfolding st wl using same(1)
      by (simp add: coordinator_def work_left_def rank_def)
  next
    case Refill_body
    then show ?thesis
      unfolding st wl using same(1)
      by (cases "formatter ?w")
         (simp_all add: coordinator_def work_left_def rank_def push_next_def next_chunk_def
            Let_def terminal_def)
  next
    case Get_front
    show ?thesis
    proof (cases "futures s = []")
      case True
      with Get_front same(1) show ?thesis
        unfolding st by (simp add: coordinator_def terminal_def worker_finishes_def)
    next
      case False
      from front [OF False] obtain f rest where "futures ?w = f # rest" "ready f" by blast
      with Get_front same(1) show ?thesis
        unfolding st wl
        by (cases "work f")
           (simp_all add: coordinator_def work_left_def rank_def get_def terminal_def)
    qed
  next
    case Pop_front
    with same(1) show ?thesis
      unfolding st wl
      by (cases "futures ?w")
         (simp_all add: coordinator_def work_left_def rank_def terminal_def)
  next
    case Write_chunk
    have w: "pc ?w = Write_chunk" using Write_chunk same(1) by simp
    from coordinator_write [OF w] show ?thesis
      unfolding st wl by (auto simp: work_left_def rank_def terminal_def Write_chunk)
  next
    case Yield_cpu
    then show ?thesis
      unfolding st wl using same(1)
      by (simp add: coordinator_def work_left_def rank_def)
  next
    case Returned
    with assms show ?thesis by (simp add: terminal_def)
  next
    case (Thrown e)
    with assms show ?thesis by (simp add: terminal_def)
  next
    case Contract_violation
    with assms show ?thesis by (simp add: terminal_def)
  next
    case Undefined
    with assms show ?thesis by (simp add: terminal_def)
  qed
qed

lemma can_finish: "\<exists>more. terminal (pc (run more s))"
proof (induction "work_left s" arbitrary: s rule: less_induct)
  case less
  show ?case
  proof (cases "terminal (pc s)")
    case True
    then have "terminal (pc (run [] s))" by simp
    then show ?thesis by blast
  next
    case False
    let ?s' = "front_done_then_step s"
    from step_decreases [OF False]
    consider "terminal (pc ?s')" | "work_left ?s' < work_left s" by blast
    then show ?thesis
    proof cases
      case 1
      then show ?thesis unfolding front_done_then_step_def by blast
    next
      case 2
      from less [OF 2] obtain more where "terminal (pc (run more ?s'))" by blast
      then have "terminal (pc (run ([Worker_finishes (front_id s), Coordinator] @ more) s))"
        unfolding run_append front_done_then_step_def .
      then show ?thesis by blast
    qed
  qed
qed

subsection \<open>Every step of the coordinator is progress or a failed poll\<close>

lemma pool_thread_count_range:
  fixes n :: "32 word"
  assumes "unat n \<le> 715827882"
  shows "1 \<le> unat (pool_thread_count n)" and "unat (pool_thread_count n) \<le> 715827882"
proof -
  show "1 \<le> unat (pool_thread_count n)"
  proof (cases "n = 0")
    case True
    then show ?thesis by (simp add: pool_thread_count_def)
  next
    case False
    then have "unat n \<noteq> 0" by (simp add: unat_eq_0)
    with False show ?thesis by (simp add: pool_thread_count_def)
  qed
  show "unat (pool_thread_count n) \<le> 715827882"
    using assms by (simp add: pool_thread_count_def)
qed

lemma failed_polls_worker [simp]: "failed_polls (worker_finishes i s) = failed_polls s"
  by (simp add: failed_polls_def worker_finishes_def)

lemma work_left_worker [simp]: "work_left (worker_finishes i s) = work_left s"
  by (simp add: work_left_def worker_finishes_def)

lemma failed_polls_init [simp]: "failed_polls (init tc ch out) = 0"
  by (simp add: failed_polls_def init_def)

lemma coordinator_progress:
  assumes "inv_ctl W s" and "\<not> terminal (pc s)"
  shows "work_left (coordinator s) + 1 + 3 * failed_polls s \<le>
           work_left s + 3 * failed_polls (coordinator s)"
proof (cases "pc s")
  case Prime_test
  then show ?thesis
    by (simp add: coordinator_def work_left_def rank_def failed_polls_def)
next
  case Prime_body
  with assms(1) obtain c rest where fmt: "formatter s = c # rest"
    by (cases "formatter s") (simp_all add: inv_ctl_def)
  from Prime_body show ?thesis
    by (simp add: coordinator_def push_next_Cons [OF fmt] Let_def work_left_def rank_def
        failed_polls_def fmt)
next
  case Drain_test
  then show ?thesis
    by (simp add: coordinator_def work_left_def rank_def failed_polls_def)
next
  case Poll
  with assms(1) obtain f rest where fs: "futures s = f # rest"
    by (cases "futures s") (simp_all add: inv_ctl_def)
  from Poll show ?thesis
    by (simp add: coordinator_def work_left_def rank_def failed_polls_def fs)
next
  case Refill_test
  then show ?thesis
    by (simp add: coordinator_def work_left_def rank_def failed_polls_def)
next
  case Refill_body
  with assms(1) obtain c rest where fmt: "formatter s = c # rest"
    by (cases "formatter s") (simp_all add: inv_ctl_def)
  from Refill_body show ?thesis
    by (simp add: coordinator_def push_next_Cons [OF fmt] Let_def work_left_def rank_def
        failed_polls_def fmt)
next
  case Get_front
  with assms(1) obtain f rest where fs: "futures s = f # rest" and r: "ready f"
    by (cases "futures s") (simp_all add: inv_ctl_def front_ready_def)
  from Get_front show ?thesis
    by (cases "work f")
       (simp_all add: coordinator_def get_def r fs work_left_def rank_def failed_polls_def)
next
  case Pop_front
  with assms(1) obtain f rest where fs: "futures s = f # rest"
    by (cases "futures s") (simp_all add: inv_ctl_def front_ready_def)
  from Pop_front show ?thesis
    by (simp add: coordinator_def fs work_left_def rank_def failed_polls_def)
next
  case Write_chunk
  note w = coordinator_write [OF Write_chunk]
  have "rank (pc (coordinator s)) \<le> 7"
    using w(2) by (auto simp: rank_def)
  then show ?thesis
    using Write_chunk by (simp add: work_left_def w failed_polls_def rank_def)
next
  case Yield_cpu
  then show ?thesis
    by (simp add: coordinator_def work_left_def rank_def failed_polls_def)
next
  case Returned
  with assms(2) show ?thesis by (simp add: terminal_def)
next
  case (Thrown e)
  with assms(2) show ?thesis by (simp add: terminal_def)
next
  case Contract_violation
  with assms(2) show ?thesis by (simp add: terminal_def)
next
  case Undefined
  with assms(2) show ?thesis by (simp add: terminal_def)
qed

lemma run_progress:
  assumes "inv_ctl W s" and "\<not> terminal (pc (run sched s))"
  shows "coordinator_steps_of sched + work_left (run sched s) + 3 * failed_polls s \<le>
           work_left s + 3 * failed_polls (run sched s)"
  using assms
proof (induction sched arbitrary: s)
  case Nil
  then show ?case by (simp add: coordinator_steps_of_def)
next
  case (Cons a sched)
  show ?case
  proof (cases a)
    case Coordinator
    have nt: "\<not> terminal (pc s)"
    proof
      assume "terminal (pc s)"
      from run_terminal [OF this, of "a # sched"] this Cons.prems(2)
      show False by (simp add: same_but_ready_def)
    qed
    have i: "inv_ctl W (coordinator s)" by (rule inv_ctl_coordinator [OF Cons.prems(1)])
    have r: "\<not> terminal (pc (run sched (coordinator s)))"
      using Cons.prems(2) Coordinator by simp
    from Cons.IH [OF i r] coordinator_progress [OF Cons.prems(1) nt] Coordinator
    show ?thesis by (simp add: coordinator_steps_of_def)
  next
    case (Worker_finishes i)
    have i': "inv_ctl W (worker_finishes i s)" by (rule inv_ctl_worker [OF Cons.prems(1)])
    have r: "\<not> terminal (pc (run sched (worker_finishes i s)))"
      using Cons.prems(2) Worker_finishes by simp
    from Cons.IH [OF i' r] Worker_finishes
    show ?thesis by (simp add: coordinator_steps_of_def)
  qed
qed

lemma work_left_pos: "\<not> terminal (pc s) \<Longrightarrow> 0 < work_left s"
  by (cases "pc s") (simp_all add: work_left_def rank_def terminal_def)

lemma steps_bounded:
  assumes "inflight_count_of tc = Some W" and "s = write_body_threads tc ch out sched"
    and "\<not> terminal (pc s)"
  shows "coordinator_steps_of sched < 20 * length ch + 9 + 3 * failed_polls s"
proof -
  have i: "inv_ctl W (init tc ch out)" by (rule inv_ctl_init [OF assms(1)])
  have r: "\<not> terminal (pc (run sched (init tc ch out)))"
    using assms(2,3) by (simp add: write_body_threads_def)
  have w: "work_left (init tc ch out) = 20 * length ch + 9"
    using assms(1) by (simp add: work_left_def init_def rank_def)
  from run_progress [OF i r] work_left_pos [OF r] w
  show ?thesis unfolding assms(2) write_body_threads_def by simp
qed

subsection \<open>A stream that does not throw is not noticed\<close>

lemma same_but_os_coordinator:
  assumes "same_but_os s s'" and "no_mask (os s)" and "no_mask (os s')"
  shows "same_but_os (coordinator s) (coordinator s')"
proof -
  from assms(1) have s': "s' = s\<lparr>os := os s'\<rparr>" by (simp add: same_but_os_def)
  let ?o = "os s'"
  have pc: "pc s' = pc s" by (subst s') simp
  show ?thesis
  proof (cases "pc s = Write_chunk")
    case True
    obtain o1 where w1: "os_write (os s) (chunk s) = (o1, None)"
      using os_write_no_mask(1) [OF assms(2), of "chunk s"] by (cases "os_write (os s) (chunk s)") simp
    obtain o2 where w2: "os_write ?o (chunk s) = (o2, None)"
      using os_write_no_mask(1) [OF assms(3), of "chunk s"] by (cases "os_write ?o (chunk s)") simp
    have c1: "coordinator s = s\<lparr>os := o1, pc := Drain_test, trace := trace s @ [Write (chunk s)]\<rparr>"
      using True w1 by (simp add: coordinator_def)
    have "coordinator (s\<lparr>os := ?o\<rparr>) =
            s\<lparr>os := o2, pc := Drain_test, trace := trace s @ [Write (chunk s)]\<rparr>"
      using True w2 by (simp add: coordinator_def)
    then have c2: "coordinator s' =
            s\<lparr>os := o2, pc := Drain_test, trace := trace s @ [Write (chunk s)]\<rparr>"
      using s' by simp
    show ?thesis by (simp add: same_but_os_def c1 c2)
  next
    case False
    have "coordinator (s\<lparr>os := ?o\<rparr>) = (coordinator s)\<lparr>os := ?o\<rparr>"
      using False
      by (cases "pc s")
         (simp_all add: coordinator_def push_next_def Let_def
            split: list.splits option.splits sum.splits prod.splits)
    then have "coordinator s' = (coordinator s)\<lparr>os := ?o\<rparr>" using s' by simp
    then show ?thesis by (simp add: same_but_os_def)
  qed
qed

lemma no_mask_coordinator: "no_mask (os s) \<Longrightarrow> no_mask (os (coordinator s))"
proof (cases "pc s = Write_chunk")
  case True
  assume n: "no_mask (os s)"
  obtain o1 e where w: "os_write (os s) (chunk s) = (o1, e)"
    by (cases "os_write (os s) (chunk s)")
  from os_write_no_mask(2) [OF n, of "chunk s"] w have "no_mask o1" by simp
  with True w show ?thesis by (cases e) (simp_all add: coordinator_def)
next
  case False
  assume "no_mask (os s)"
  with False show ?thesis
    by (cases "pc s")
       (simp_all add: coordinator_def push_next_def Let_def
          split: list.splits option.splits sum.splits prod.splits)
qed

lemma same_but_os_exec:
  assumes "same_but_os s s'" and "no_mask (os s)" and "no_mask (os s')"
  shows "same_but_os (exec a s) (exec a s')"
    and "no_mask (os (exec a s))" and "no_mask (os (exec a s'))"
proof -
  show "same_but_os (exec a s) (exec a s')"
  proof (cases a)
    case Coordinator
    with same_but_os_coordinator [OF assms] show ?thesis by simp
  next
    case (Worker_finishes i)
    from assms(1) have s': "s' = s\<lparr>os := os s'\<rparr>" by (simp add: same_but_os_def)
    have "worker_finishes i (s\<lparr>os := os s'\<rparr>) = (worker_finishes i s)\<lparr>os := os s'\<rparr>"
      by (simp add: worker_finishes_def)
    with s' have "worker_finishes i s' = (worker_finishes i s)\<lparr>os := os s'\<rparr>" by simp
    with Worker_finishes show ?thesis by (simp add: same_but_os_def)
  qed
  show "no_mask (os (exec a s))"
    using assms(2) by (cases a) (simp_all add: no_mask_coordinator worker_finishes_def)
  show "no_mask (os (exec a s'))"
    using assms(3) by (cases a) (simp_all add: no_mask_coordinator worker_finishes_def)
qed

lemma same_but_os_run:
  "same_but_os s s' \<Longrightarrow> no_mask (os s) \<Longrightarrow> no_mask (os s') \<Longrightarrow>
   same_but_os (run sched s) (run sched s')"
proof (induction sched arbitrary: s s')
  case Nil
  then show ?case by simp
next
  case (Cons a sched)
  from same_but_os_exec [OF Cons.prems] Cons.IH show ?case by simp
qed

lemma silent_sink_unnoticed:
  assumes "no_mask out"
  shows "write_body_threads tc ch out sched =
           (write_body_threads tc ch (out\<lparr>room := None\<rparr>) sched)
             \<lparr>os := os (write_body_threads tc ch out sched)\<rparr>"
proof -
  have "same_but_os (init tc ch (out\<lparr>room := None\<rparr>)) (init tc ch out)"
    by (simp add: same_but_os_def init_def)
  moreover have "no_mask (os (init tc ch (out\<lparr>room := None\<rparr>)))"
    "no_mask (os (init tc ch out))"
    using assms by (simp_all add: init_def no_mask_def)
  ultimately have "same_but_os (run sched (init tc ch (out\<lparr>room := None\<rparr>)))
                      (run sched (init tc ch out))"
    by (rule same_but_os_run)
  then show ?thesis by (simp add: same_but_os_def write_body_threads_def)
qed

subsection \<open>How a call ends, and what the stream holds\<close>

lemma ended_cases:
  assumes "inv W ch out s" and "0 < W" and "terminal (pc s)"
  shows "pc s = Returned \<and> formatter s = [] \<and> futures s = [] \<and> submitted s = length ch \<or>
         (\<exists>m. pc s = Thrown (Worker_failure m) \<and> Inl m \<in> set ch) \<or>
         pc s = Thrown Ios_failure"
proof -
  from assms(1) have ctl: "inv_ctl W s" and q: "inv_queue ch s" and sink: "inv_sink ch out s"
    by (simp_all add: inv_def)
  show ?thesis
  proof (cases "pc s")
    case Returned
    with ctl assms(2) have e: "futures s = []" "formatter s = []"
      by (auto simp: inv_ctl_def)
    with q have "submitted s = length ch"
      by (simp add: inv_queue_def)
    with Returned e show ?thesis by simp
  next
    case (Thrown e)
    show ?thesis
    proof (cases e)
      case (Worker_failure m)
      with Thrown ctl obtain f rest where fs: "futures s = f # rest"
        by (cases "futures s") (simp_all add: inv_ctl_def front_ready_def)
      have lt: "popped s < length ch" by (rule inv_queue_front(4) [OF q fs])
      have "ch ! popped s = Inl m"
        using sink Thrown Worker_failure by (simp add: inv_sink_def)
      with lt have "Inl m \<in> set ch" by (metis nth_mem)
      with Thrown Worker_failure show ?thesis by simp
    next
      case Ios_failure
      with Thrown show ?thesis by simp
    qed
  next
    case Contract_violation
    with ctl show ?thesis by (simp add: inv_ctl_def)
  next
    case Undefined
    with ctl show ?thesis by (simp add: inv_ctl_def)
  qed (use assms(3) in \<open>simp_all add: terminal_def\<close>)
qed

lemma good_not_throws: "good out \<Longrightarrow> \<not> throws out"
  by (simp add: good_def throws_def)

lemma sink_thrown:
  assumes "inv_sink ch out s" and "good out"
  shows "pc s = Thrown Ios_failure \<longleftrightarrow> throws (os s)"
    and "pc s = Thrown Ios_failure \<longrightarrow> badbit (os s)"
    and "except_badbit out \<longrightarrow> (badbit (os s) \<longleftrightarrow> pc s = Thrown Ios_failure)"
    and "\<not> except_badbit out \<and> pc s = Thrown Ios_failure \<longrightarrow>
           failbit (os s) \<and> except_failbit out \<and> sentry out \<noteq> Never"
    and "good (os s) \<or> badbit (os s)"
proof -
  let ?b = "concat (map bytes_of (take (written_count s) ch))"
  from assms(1) have sa: "stream_after out ?b (os s)"
    and t: "\<not> throws out \<longrightarrow> (pc s = Thrown Ios_failure \<longleftrightarrow> throws (os s))"
    unfolding inv_sink_def by blast+
  note set = stream_after_settings [OF sa]
  from sa have gb: "good out \<and> failbit (os s) \<longrightarrow> badbit (os s)"
    and sb: "failbit (os s) \<and> \<not> failbit out \<longrightarrow> sentry out \<noteq> Never"
    unfolding stream_after_def by blast+
  from assms(2) have g: "\<not> badbit out" "\<not> failbit out" "\<not> eofbit out"
    by (simp_all add: good_def)
  show 1: "pc s = Thrown Ios_failure \<longleftrightarrow> throws (os s)"
    using t good_not_throws [OF assms(2)] by simp
  have th: "throws (os s) \<longleftrightarrow>
      badbit (os s) \<and> except_badbit out \<or> failbit (os s) \<and> except_failbit out"
    using set g(3) by (simp add: throws_def)
  show 2: "pc s = Thrown Ios_failure \<longrightarrow> badbit (os s)"
    using 1 th gb assms(2) by blast
  show "except_badbit out \<longrightarrow> (badbit (os s) \<longleftrightarrow> pc s = Thrown Ios_failure)"
    using 1 2 th by blast
  show "\<not> except_badbit out \<and> pc s = Thrown Ios_failure \<longrightarrow>
           failbit (os s) \<and> except_failbit out \<and> sentry out \<noteq> Never"
    using 1 th sb g(2) by blast
  show "good (os s) \<or> badbit (os s)"
    using gb assms(2) set(5) g(3) by (auto simp: good_def)
qed

lemma sink_written:
  assumes "inv_sink ch out s"
  shows "good (os s) \<longrightarrow>
           written (os s) = written out @ concat (map bytes_of (take (written_count s) ch))"
    and "\<not> badbit (os s) \<longrightarrow>
           written (os s) = written out @ concat (map bytes_of (take (written_count s) ch)) \<or>
           written (os s) = written out"
    and "good (os s) \<longrightarrow> good out"
proof -
  let ?b = "concat (map bytes_of (take (written_count s) ch))"
  from assms(1) have sa: "stream_after out ?b (os s)"
    unfolding inv_sink_def by blast
  show "good (os s) \<longrightarrow> written (os s) = written out @ ?b"
    using stream_after_good(2) [OF sa] by blast
  show "\<not> badbit (os s) \<longrightarrow> written (os s) = written out @ ?b \<or> written (os s) = written out"
    using stream_after_not_bad [OF sa] by blast
  show "good (os s) \<longrightarrow> good out"
    using stream_after_good(1) [OF sa] by blast
qed

lemma sink_settings:
  assumes "inv_sink ch out s"
  shows "except_badbit (os s) = except_badbit out \<and>
         except_failbit (os s) = except_failbit out \<and>
         except_eofbit (os s) = except_eofbit out"
proof -
  from assms have "stream_after out (concat (map bytes_of (take (written_count s) ch))) (os s)"
    unfolding inv_sink_def by blast
  from stream_after_settings(1-3) [OF this] show ?thesis by blast
qed

section \<open>The claims\<close>

text \<open>
  A run of \<^verbatim>\<open>write_body_threads\<close> is \<open>write_body_threads thread_count ch out sched\<close>:
  the pool reports \<open>thread_count\<close> threads, the source yields the work items \<open>ch\<close>,
  the stream is \<open>out\<close>, and \<open>sched\<close> interleaves the coordinator's steps with the
  workers' completions. A theorem about every \<open>sched\<close> is about every moment of every
  run and every order of completion.
\<close>

text \<open>
  C1. For every source of \<open>N\<close> chunks and every schedule, that is, every order in which
  workers complete them, a stream that is not bad holds at each moment the bytes of the
  first \<open>k\<close> chunks in the order the source created them, for some \<open>k \<le> N\<close> (zero
  bytes for \<open>N = 0\<close>), and if it was good at the call it is still good. When the call
  has returned, on a pool of at least one thread (and few enough for line 41 not to
  overflow), none of the \<open>N\<close> chunks failed, and a good stream holds the bytes of all of
  them in that order.
\<close>

theorem chunks_written_in_submission_order:
  assumes "s = write_body_threads thread_count ch out sched"
    and "\<not> badbit (os s)"
  shows "(\<exists>k \<le> length ch. written (os s) = written out @ concat (map bytes_of (take k ch))) \<and>
         (good out \<longrightarrow> good (os s)) \<and>
         (1 \<le> unat thread_count \<and> unat thread_count \<le> 715827882 \<and> pc s = Returned \<longrightarrow>
            (good (os s) \<longrightarrow> written (os s) = written out @ concat (map bytes_of ch)) \<and>
            (\<forall>c \<in> set ch. \<exists>bytes. c = Inr bytes))"
proof (cases "inflight_count_of thread_count")
  case None
  have "pc (init thread_count ch out) = Undefined" using None by (simp add: init_def)
  then have "terminal (pc (init thread_count ch out))" by (simp add: terminal_def)
  from run_terminal [OF this, of sched]
  have u: "pc s = Undefined" "os s = out"
    by (simp_all add: assms(1) write_body_threads_def same_but_ready_def init_def None)
  then have "written (os s) = written out @ concat (map bytes_of (take 0 ch))" by simp
  then have "\<exists>k \<le> length ch. written (os s) = written out @ concat (map bytes_of (take k ch))"
    by blast
  with u show ?thesis by simp
next
  case (Some W)
  have "inv W ch out s"
    unfolding assms(1) by (rule inv_write_body_threads [OF Some])
  then have ctl: "inv_ctl W s" and q: "inv_queue ch s" and sink: "inv_sink ch out s"
    by (simp_all add: inv_def)
  let ?k = "written_count s"
  have ok: "\<forall>c \<in> set (take ?k ch). \<exists>b. c = Inr b"
    using sink unfolding inv_sink_def by blast
  note wr = sink_written [OF sink]
  have "submitted s \<le> length ch"
    using q by (simp add: inv_queue_def)
  then have "popped s \<le> length ch"
    by (simp add: popped_def)
  then have k: "?k \<le> length ch" by (auto simp: written_count_def)
  have pre: "\<exists>k \<le> length ch. written (os s) = written out @ concat (map bytes_of (take k ch))"
  proof -
    from wr(2) assms(2)
    consider "written (os s) = written out @ concat (map bytes_of (take ?k ch))"
      | "written (os s) = written out @ concat (map bytes_of (take 0 ch))"
      by auto
    then show ?thesis
    proof cases
      case 1
      with k show ?thesis by blast
    next
      case 2
      then show ?thesis by blast
    qed
  qed
  have still: "good out \<longrightarrow> good (os s)"
  proof
    assume "good out"
    from sink_thrown(5) [OF sink this] assms(2) show "good (os s)" by simp
  qed
  have ret: "(good (os s) \<longrightarrow> written (os s) = written out @ concat (map bytes_of ch)) \<and>
            (\<forall>c \<in> set ch. \<exists>bytes. c = Inr bytes)"
    if r: "1 \<le> unat thread_count \<and> unat thread_count \<le> 715827882 \<and> pc s = Returned"
  proof -
    from r inflight_count_of_small [of thread_count] Some
    have W: "W = 3 * int (unat thread_count)" by simp
    from r have pos: "\<not> W \<le> 0" unfolding W by linarith
    with ctl r have "futures s = []" "formatter s = []"
      by (auto simp: inv_ctl_def)
    with q have "popped s = length ch"
      by (simp add: inv_queue_def popped_def)
    with r have "take ?k ch = ch" by (simp add: written_count_def)
    with wr(1) ok show ?thesis by simp
  qed
  from pre still ret show ?thesis by blast
qed

theorem chunks_written_in_submission_order_witness:
  "1 \<le> unat (2 :: 32 word) \<and> unat (2 :: 32 word) \<le> 715827882 \<and>
   pc (write_body_threads 2 chunks_ABCDE out0 sched_ABCDE) = Returned \<and>
   \<not> badbit (os (write_body_threads 2 chunks_ABCDE out0 sched_ABCDE)) \<and>
   good out0 \<and>
   good (os (write_body_threads 2 chunks_ABCDE out0 sched_ABCDE)) \<and>
   written (os (write_body_threads 2 chunks_ABCDE out0 sched_ABCDE)) = ''ABCDE'' \<and>
   \<not> badbit (os (write_body_threads 2 [] out0 (coordinator_steps 3))) \<and>
   written (os (write_body_threads 2 [] out0 (coordinator_steps 3))) = []"
proof -
  have 1: "1 \<le> unat (2 :: 32 word)" and 2: "unat (2 :: 32 word) \<le> 715827882"
    by simp_all
  have 3: "pc (write_body_threads 2 chunks_ABCDE out0 sched_ABCDE) = Returned"
    by code_simp
  have 4: "\<not> badbit (os (write_body_threads 2 chunks_ABCDE out0 sched_ABCDE))"
    by code_simp
  have g: "good out0" by (simp add: out0_def good_def)
  note t = chunks_written_in_submission_order [OF refl 4]
  from t g have g': "good (os (write_body_threads 2 chunks_ABCDE out0 sched_ABCDE))"
    by blast
  from t 1 2 3 g'
  have "written (os (write_body_threads 2 chunks_ABCDE out0 sched_ABCDE)) =
          written out0 @ concat (map bytes_of chunks_ABCDE)"
    by blast
  also have "\<dots> = ''ABCDE''"
    by (simp add: out0_def chunks_ABCDE_def bytes_of_def)
  finally have 5: "written (os (write_body_threads 2 chunks_ABCDE out0 sched_ABCDE)) = ''ABCDE''" .
  have 6: "\<not> badbit (os (write_body_threads 2 [] out0 (coordinator_steps 3)))"
    by code_simp
  from chunks_written_in_submission_order [OF refl 6]
  have 7: "written (os (write_body_threads 2 [] out0 (coordinator_steps 3))) = []"
    by (simp add: out0_def)
  from 1 2 3 4 g g' 5 6 7 show ?thesis by blast
qed

text \<open>
  C2. If retrieving the result of a chunk raises the worker's failure, the call ends
  with that failure and stays ended under every continuation of the schedule (nothing
  more is submitted, written or logged). The chunk retrieved last is the one at index
  \<open>k\<close> (the claim's chunk \<open>k + 1\<close>): it is the chunk that raises, the chunks before it
  all succeeded, and a stream that is still good holds exactly their bytes, in order,
  and none of the later chunks. A stream that was good at the call is still good unless
  it is bad.
\<close>

theorem worker_failure_aborts:
  assumes "s = write_body_threads thread_count ch out sched"
    and "pc s = Thrown (Worker_failure m)"
  shows "\<exists>k < length ch.
           trace s \<noteq> [] \<and> last (trace s) = Get k \<and>
           ch ! k = Inl m \<and>
           (\<forall>c \<in> set (take k ch). \<exists>bytes. c = Inr bytes) \<and>
           (good (os s) \<longrightarrow>
              written (os s) = written out @ concat (map bytes_of (take k ch))) \<and>
           (good out \<and> \<not> badbit (os s) \<longrightarrow> good (os s)) \<and>
           (\<forall>more. pc (run more s) = Thrown (Worker_failure m) \<and> os (run more s) = os s \<and>
                   submitted (run more s) = submitted s \<and> trace (run more s) = trace s)"
proof -
  obtain W where W: "inflight_count_of thread_count = Some W"
    using undefined_write_body_threads [of thread_count ch out sched] assms
    by (cases "inflight_count_of thread_count") simp_all
  have "inv W ch out s"
    unfolding assms(1) by (rule inv_write_body_threads [OF W])
  then have ctl: "inv_ctl W s" and q: "inv_queue ch s" and sink: "inv_sink ch out s"
    by (simp_all add: inv_def)
  have "inv_thrown s"
    unfolding assms(1) write_body_threads_def
    by (rule inv_thrown_run [OF inv_thrown_init inv_init [OF W]])
  with assms(2) have last: "trace s \<noteq> [] \<and> last (trace s) = Get (popped s)"
    by (simp add: inv_thrown_def)
  let ?k = "popped s"
  have wc: "written_count s = ?k"
    using assms(2) by (simp add: written_count_def)
  from ctl assms(2) obtain f rest where fs: "futures s = f # rest"
    by (cases "futures s") (simp_all add: inv_ctl_def front_ready_def)
  have lt: "?k < length ch" by (rule inv_queue_front(4) [OF q fs])
  have failed: "ch ! ?k = Inl m"
    using sink assms(2) by (simp add: inv_sink_def)
  have ok: "\<forall>c \<in> set (take ?k ch). \<exists>b. c = Inr b"
    using sink unfolding inv_sink_def wc by blast
  have wr: "good (os s) \<longrightarrow> written (os s) = written out @ concat (map bytes_of (take ?k ch))"
    using sink_written(1) [OF sink] unfolding wc .
  have still: "good out \<and> \<not> badbit (os s) \<longrightarrow> good (os s)"
    using sink_thrown(5) [OF sink] by blast
  have "terminal (pc s)" using assms(2) by (simp add: terminal_def)
  then have "same_but_ready s (run more s)" for more by (rule run_terminal)
  then have stay: "\<forall>more. pc (run more s) = Thrown (Worker_failure m) \<and> os (run more s) = os s \<and>
                   submitted (run more s) = submitted s \<and> trace (run more s) = trace s"
    using assms(2) by (simp add: same_but_ready_def)
  from lt last failed ok wr still stay show ?thesis by blast
qed

theorem worker_failure_aborts_witness:
  "pc (write_body_threads 1 chunks_boom out0 sched_boom) = Thrown (Worker_failure ''boom'') \<and>
   good out0 \<and>
   \<not> badbit (os (write_body_threads 1 chunks_boom out0 sched_boom)) \<and>
   good (os (write_body_threads 1 chunks_boom out0 sched_boom)) \<and>
   written (os (write_body_threads 1 chunks_boom out0 sched_boom)) = ''AB'' \<and>
   last (trace (write_body_threads 1 chunks_boom out0 sched_boom)) = Get 2 \<and>
   submitted (run [Coordinator, Worker_finishes 4, Coordinator]
                (write_body_threads 1 chunks_boom out0 sched_boom)) =
     submitted (write_body_threads 1 chunks_boom out0 sched_boom)"
proof -
  let ?s = "write_body_threads 1 chunks_boom out0 sched_boom"
  have 1: "pc ?s = Thrown (Worker_failure ''boom'')" by code_simp
  have 2: "\<not> badbit (os ?s)" by code_simp
  have g: "good out0" by (simp add: out0_def good_def)
  from worker_failure_aborts [OF refl 1] obtain k where k: "k < length chunks_boom"
    and l: "last (trace ?s) = Get k"
    and f: "chunks_boom ! k = Inl ''boom''"
    and w: "good (os ?s) \<longrightarrow>
              written (os ?s) = written out0 @ concat (map bytes_of (take k chunks_boom))"
    and still: "good out0 \<and> \<not> badbit (os ?s) \<longrightarrow> good (os ?s)"
    and stay: "\<forall>more. submitted (run more ?s) = submitted ?s"
    by blast
  from still g 2 have g': "good (os ?s)" by blast
  from k have "k = 0 \<or> k = 1 \<or> k = 2 \<or> k = 3 \<or> k = 4"
    by (simp add: chunks_boom_def) arith
  with f have k2: "k = 2" by (auto simp: chunks_boom_def)
  with w g' have "written (os ?s) = ''AB''"
    by (simp add: chunks_boom_def out0_def bytes_of_def)
  moreover from l k2 have "last (trace ?s) = Get 2" by simp
  moreover from stay have "submitted (run [Coordinator, Worker_finishes 4, Coordinator] ?s) =
      submitted ?s"
    by (rule spec)
  ultimately show ?thesis using 1 2 g g' by blast
qed

text \<open>
  C3, as amended. At every point of every run at most \<open>3 \<times> worker_count\<close> submitted
  work items are still unfinished, and at most \<open>3 \<times> worker_count + 1\<close> are submitted
  but not yet written. Outside lines 59 to 61 of a drain step the submitted but unwritten
  items are exactly the Pending Queue, at most \<open>3 \<times> worker_count\<close> of them.
\<close>

theorem window_bound:
  assumes "unat thread_count \<le> 715827882"
    and "s = write_body_threads thread_count ch out sched"
  shows "unfinished s \<le> 3 * unat thread_count \<and>
         outstanding s \<le> 3 * unat thread_count + 1 \<and>
         (\<not> writing_back (pc s) \<longrightarrow>
            outstanding s = length (futures s) \<and> outstanding s \<le> 3 * unat thread_count)"
proof -
  let ?W = "3 * int (unat thread_count)"
  have "inv ?W ch out s"
    unfolding assms(2)
    by (rule inv_write_body_threads) (rule inflight_count_of_small [OF assms(1)])
  then have ctl: "inv_ctl ?W s" and q: "inv_queue ch s" and sink: "inv_sink ch out s"
    by (simp_all add: inv_def)
  have n: "nat ?W = 3 * unat thread_count" by (rule nat_3_unat)
  have len: "length (futures s) \<le> submitted s"
    using q by (simp add: inv_queue_def)
  have u: "unfinished s \<le> 3 * unat thread_count"
    using inv_ctl_unfinished(1) [OF ctl] unfolding n .
  have out_other: "outstanding s = length (futures s)" if "pc s \<noteq> Write_chunk"
    using that len by (simp add: outstanding_def written_count_def popped_def)
  have out_write: "outstanding s = Suc (length (futures s))" if "pc s = Write_chunk"
  proof -
    from sink that have "0 < popped s" by (simp add: inv_sink_def)
    then show ?thesis
      using that len by (simp add: outstanding_def written_count_def popped_def)
  qed
  have small: "length (futures s) \<le> 3 * unat thread_count"
    if "pc s = Write_chunk \<or> \<not> writing_back (pc s)"
    using inv_ctl_unfinished(2) [OF ctl that] unfolding n .
  have a: "outstanding s \<le> 3 * unat thread_count + 1"
  proof (cases "pc s = Write_chunk")
    case True
    with out_write small show ?thesis by simp
  next
    case False
    with out_other inv_ctl_length(1) [OF ctl] show ?thesis unfolding n by simp
  qed
  have b: "outstanding s = length (futures s) \<and> outstanding s \<le> 3 * unat thread_count"
    if "\<not> writing_back (pc s)"
  proof -
    from that have "pc s \<noteq> Write_chunk" by (auto simp: writing_back_def)
    with out_other small that show ?thesis by simp
  qed
  from u a b show ?thesis by blast
qed

theorem window_bound_witness:
  "unat (1 :: 32 word) \<le> 715827882 \<and>
   \<not> writing_back (pc (write_body_threads 1 chunks_ABCDE out0 (coordinator_steps 8))) \<and>
   outstanding (write_body_threads 1 chunks_ABCDE out0 (coordinator_steps 8)) \<le> 3 \<and>
   unfinished (write_body_threads 1 chunks_ABCDE out0 (coordinator_steps 8)) \<le> 3"
proof -
  let ?s = "write_body_threads 1 chunks_ABCDE out0 (coordinator_steps 8)"
  have 1: "unat (1 :: 32 word) \<le> 715827882" by simp
  have 2: "\<not> writing_back (pc ?s)" by code_simp
  from window_bound [OF 1 refl, of chunks_ABCDE out0 "coordinator_steps 8"] 2
  have "unfinished ?s \<le> 3 * unat (1 :: 32 word)" "outstanding ?s \<le> 3 * unat (1 :: 32 word)"
    by blast+
  then have "unfinished ?s \<le> 3" "outstanding ?s \<le> 3" by simp_all
  with 1 2 show ?thesis by blast
qed

text \<open>
  C3 as stated fails: right after the refill of the first drain step the queue of a
  one-thread pool holds four handles.
\<close>

theorem window_bound_counterexample:
  "\<not> length (futures (write_body_threads 1 chunks_ABCDE out0 sched_refill))
       \<le> 3 * unat (1 :: 32 word)"
  by code_simp

text \<open>
  C4, as amended, for a stream that is good at the call. In every reachable state the
  call has ended with \<^verbatim>\<open>ios_base::failure\<close> exactly if the stream's state and its
  exception mask have a bit in common; the stream is then bad, and the ended state stays
  as it is (no retry, no further submission or write). On a stream whose mask holds
  \<^verbatim>\<open>badbit\<close>, a failed append ends the call at that very write: the stream is bad
  exactly if the call has ended so. On a stream with the default (empty) mask the call
  never ends with an I/O failure: the failed append only changes the state of the
  stream, and but for the stream the run is, step by step, the run on a device that
  never fails. On a stream whose mask does not hold \<^verbatim>\<open>badbit\<close>, the call ends with
  \<^verbatim>\<open>ios_base::failure\<close> only once \<^verbatim>\<open>failbit\<close> is set, which a failed append does not
  do: it takes \<^verbatim>\<open>failbit\<close> in the mask and the sentry of a later write that sets it.
  The call never changes the mask.
\<close>

theorem sink_failure:
  assumes "s = write_body_threads thread_count ch out sched" and "good out"
  shows "(pc s = Thrown Ios_failure \<longleftrightarrow> throws (os s)) \<and>
         (pc s = Thrown Ios_failure \<longrightarrow>
            badbit (os s) \<and>
            (\<forall>more. pc (run more s) = Thrown Ios_failure \<and> os (run more s) = os s \<and>
                    submitted (run more s) = submitted s \<and> trace (run more s) = trace s)) \<and>
         (except_badbit out \<longrightarrow> (badbit (os s) \<longleftrightarrow> pc s = Thrown Ios_failure)) \<and>
         (no_mask out \<longrightarrow>
            pc s \<noteq> Thrown Ios_failure \<and>
            s = (write_body_threads thread_count ch (out\<lparr>room := None\<rparr>) sched)\<lparr>os := os s\<rparr>) \<and>
         (\<not> except_badbit out \<and> pc s = Thrown Ios_failure \<longrightarrow>
            failbit (os s) \<and> except_failbit out \<and> sentry out \<noteq> Never) \<and>
         except_badbit (os s) = except_badbit out \<and>
         except_failbit (os s) = except_failbit out \<and>
         except_eofbit (os s) = except_eofbit out"
proof -
  have ab: "(pc s = Thrown Ios_failure \<longleftrightarrow> throws (os s)) \<and>
            (pc s = Thrown Ios_failure \<longrightarrow> badbit (os s)) \<and>
            (except_badbit out \<longrightarrow> (badbit (os s) \<longleftrightarrow> pc s = Thrown Ios_failure)) \<and>
            (\<not> except_badbit out \<and> pc s = Thrown Ios_failure \<longrightarrow>
               failbit (os s) \<and> except_failbit out \<and> sentry out \<noteq> Never) \<and>
            except_badbit (os s) = except_badbit out \<and>
            except_failbit (os s) = except_failbit out \<and>
            except_eofbit (os s) = except_eofbit out"
  proof (cases "inflight_count_of thread_count")
    case None
    have "pc (init thread_count ch out) = Undefined" using None by (simp add: init_def)
    then have "terminal (pc (init thread_count ch out))" by (simp add: terminal_def)
    from run_terminal [OF this, of sched]
    have "pc s = Undefined" "os s = out"
      by (simp_all add: assms(1) write_body_threads_def same_but_ready_def init_def None)
    with assms(2) good_not_throws [OF assms(2)] show ?thesis by (simp add: good_def)
  next
    case (Some W)
    have "inv W ch out s"
      unfolding assms(1) by (rule inv_write_body_threads [OF Some])
    then have sink: "inv_sink ch out s" by (simp add: inv_def)
    from sink_thrown(1-4) [OF sink assms(2)] sink_settings [OF sink] show ?thesis by blast
  qed
  have c: "\<forall>more. pc (run more s) = Thrown Ios_failure \<and> os (run more s) = os s \<and>
                       submitted (run more s) = submitted s \<and> trace (run more s) = trace s"
    if t: "pc s = Thrown Ios_failure"
  proof -
    from t have "terminal (pc s)" by (simp add: terminal_def)
    then have "same_but_ready s (run more s)" for more by (rule run_terminal)
    with t show ?thesis by (simp add: same_but_ready_def)
  qed
  have n: "pc s \<noteq> Thrown Ios_failure" if "no_mask out"
  proof
    assume "pc s = Thrown Ios_failure"
    with ab have "except_badbit out \<or> except_failbit out" by blast
    with that show False by (simp add: no_mask_def)
  qed
  have d: "s = (write_body_threads thread_count ch (out\<lparr>room := None\<rparr>) sched)\<lparr>os := os s\<rparr>"
    if "no_mask out"
    unfolding assms(1) by (rule silent_sink_unnoticed [OF that])
  from ab c n d show ?thesis by blast
qed

theorem sink_failure_witness:
  "good out_throwing \<and> except_badbit out_throwing \<and>
   badbit (os (write_body_threads 1 chunks_ABCDE out_throwing sched_to_end)) \<and>
   pc (write_body_threads 1 chunks_ABCDE out_throwing sched_to_end) = Thrown Ios_failure \<and>
   throws (os (write_body_threads 1 chunks_ABCDE out_throwing sched_to_end)) \<and>
   written (os (write_body_threads 1 chunks_ABCDE out_throwing sched_to_end)) = ''A'' \<and>
   submitted (write_body_threads 1 chunks_ABCDE out_throwing sched_to_end) = 5 \<and>
   submitted (run [Coordinator] (write_body_threads 1 chunks_ABCDE out_throwing sched_to_end)) = 5 \<and>
   good out_full \<and> no_mask out_full \<and>
   pc (write_body_threads 1 chunks_ABCDE out_full sched_to_end) \<noteq> Thrown Ios_failure \<and>
   trace (write_body_threads 1 chunks_ABCDE out_full sched_to_end) =
     trace (write_body_threads 1 chunks_ABCDE (out_full\<lparr>room := None\<rparr>) sched_to_end) \<and>
   good out_failbit_mask \<and> \<not> except_badbit out_failbit_mask \<and>
   badbit (os (write_body_threads 1 chunks_ABCDE out_failbit_mask sched_first_write)) \<and>
   pc (write_body_threads 1 chunks_ABCDE out_failbit_mask sched_first_write) = Drain_test \<and>
   submitted (write_body_threads 1 chunks_ABCDE out_failbit_mask sched_first_write) = 4 \<and>
   pc (write_body_threads 1 chunks_ABCDE out_failbit_mask sched_to_end) = Thrown Ios_failure \<and>
   failbit (os (write_body_threads 1 chunks_ABCDE out_failbit_mask sched_to_end)) \<and>
   submitted (write_body_threads 1 chunks_ABCDE out_failbit_mask sched_to_end) = 5 \<and>
   last (trace (write_body_threads 1 chunks_ABCDE out_failbit_mask sched_to_end)) = Write ''B''"
proof -
  let ?s = "write_body_threads 1 chunks_ABCDE out_throwing sched_to_end"
  let ?t = "write_body_threads 1 chunks_ABCDE out_full sched_to_end"
  let ?u = "write_body_threads 1 chunks_ABCDE out_failbit_mask sched_to_end"
  let ?v = "write_body_threads 1 chunks_ABCDE out_failbit_mask sched_first_write"
  have 1: "good out_throwing" and 2: "except_badbit out_throwing"
    by (simp_all add: out_throwing_def out0_def good_def)
  have 3: "badbit (os ?s)" by code_simp
  note t = sink_failure [OF refl 1, of 1 chunks_ABCDE sched_to_end]
  from t 2 3 have 4: "pc ?s = Thrown Ios_failure" by blast
  with t have 5: "submitted (run [Coordinator] ?s) = submitted ?s" by blast
  from t 4 have thr: "throws (os ?s)" by blast
  have 6: "submitted ?s = 5" by code_simp
  have 7: "written (os ?s) = ''A''" by code_simp
  have 8: "good out_full" "no_mask out_full"
    by (simp_all add: out_full_def out0_def good_def no_mask_def)
  note u = sink_failure [OF refl 8(1), of 1 chunks_ABCDE sched_to_end]
  from u 8(2) have 9: "pc ?t \<noteq> Thrown Ios_failure" by blast
  from u 8(2)
  have "?t = (write_body_threads 1 chunks_ABCDE (out_full\<lparr>room := None\<rparr>) sched_to_end)
               \<lparr>os := os ?t\<rparr>"
    by blast
  then have "trace ?t =
      trace ((write_body_threads 1 chunks_ABCDE (out_full\<lparr>room := None\<rparr>) sched_to_end)
               \<lparr>os := os ?t\<rparr>)"
    by simp
  then have 10: "trace ?t =
      trace (write_body_threads 1 chunks_ABCDE (out_full\<lparr>room := None\<rparr>) sched_to_end)"
    by simp
  have 11: "good out_failbit_mask" "\<not> except_badbit out_failbit_mask"
    by (simp_all add: out_failbit_mask_def out0_def good_def)
  have 12: "badbit (os ?v)" "pc ?v = Drain_test" "submitted ?v = 4"
    by code_simp+
  have 13: "pc ?u = Thrown Ios_failure" by code_simp
  note w = sink_failure [OF refl 11(1), of 1 chunks_ABCDE sched_to_end]
  from w 11(2) 13 have 14: "failbit (os ?u)" by blast
  have 15: "submitted ?u = 5" "last (trace ?u) = Write ''B''"
    by code_simp+
  from 1 2 3 4 5 thr 6 7 8 9 10 11 12 13 14 15 show ?thesis by simp
qed

text \<open>
  C4 as stated fails on a stream with the default mask: the write of chunk A fails, the
  coordinator goes on to submit chunk 4 and to retrieve and write the other chunks, and
  returns normally with nothing in the stream.
\<close>

theorem sink_failure_counterexample:
  "badbit (os (write_body_threads 1 chunks_ABCDE out_full sched_first_write)) \<and>
   trace (write_body_threads 1 chunks_ABCDE out_full sched_first_write) =
     [Has_next True, Next_chunk, Submit 0, Has_next True, Next_chunk, Submit 1,
      Has_next True, Next_chunk, Submit 2,
      Is_ready 0 True, Has_next True, Next_chunk, Submit 3, Get 0, Pop, Write ''A''] \<and>
   trace (write_body_threads 1 chunks_ABCDE out_full sched_to_end) =
     [Has_next True, Next_chunk, Submit 0, Has_next True, Next_chunk, Submit 1,
      Has_next True, Next_chunk, Submit 2,
      Is_ready 0 True, Has_next True, Next_chunk, Submit 3, Get 0, Pop, Write ''A'',
      Is_ready 1 True, Has_next True, Next_chunk, Submit 4, Get 1, Pop, Write ''B'',
      Is_ready 2 True, Has_next False, Get 2, Pop, Write ''C'',
      Is_ready 3 True, Has_next False, Get 3, Pop, Write ''D'',
      Is_ready 4 True, Has_next False, Get 4, Pop, Write ''E''] \<and>
   pc (write_body_threads 1 chunks_ABCDE out_full sched_to_end) = Returned \<and>
   written (os (write_body_threads 1 chunks_ABCDE out_full sched_to_end)) = []"
  by code_simp

text \<open>
  C5. A pool configured with \<open>num_threads\<close> workers reports \<open>pool_thread_count
  num_threads\<close> threads, at least one also for a configured count of 0 (the configured
  count is small enough for line 41 not to overflow). The window is three times the
  reported count, hence at least 1. From the first submission on, whenever the source
  still has work a work item is outstanding. The pipeline makes progress: while the call
  has not ended the coordinator has taken fewer than \<open>20 N + 9\<close> steps apart from three
  for each poll that found the front handle not complete, so that it only ever waits for
  a worker; a call that has ended has returned with all \<open>N\<close> work items submitted and
  retrieved, or has been ended by the failure of a chunk that fails or by an I/O failure;
  and every run can be continued to such an end.
\<close>

theorem window_at_least_one:
  assumes "unat num_threads \<le> 715827882"
    and "s = write_body_threads (pool_thread_count num_threads) ch out sched"
  shows "1 \<le> unat (pool_thread_count num_threads) \<and>
         inflight_count s = 3 * int (unat (pool_thread_count num_threads)) \<and>
         1 \<le> inflight_count s \<and>
         (formatter s \<noteq> [] \<longrightarrow>
            futures s \<noteq> [] \<or> ((pc s = Prime_test \<or> pc s = Prime_body) \<and> batch_i s = 0)) \<and>
         (\<not> terminal (pc s) \<longrightarrow>
            coordinator_steps_of sched < 20 * length ch + 9 + 3 * failed_polls s) \<and>
         (terminal (pc s) \<longrightarrow>
            pc s = Returned \<and> formatter s = [] \<and> futures s = [] \<and> submitted s = length ch \<or>
            (\<exists>m. pc s = Thrown (Worker_failure m) \<and> Inl m \<in> set ch) \<or>
            pc s = Thrown Ios_failure) \<and>
         (\<exists>more. pc (run more s) = Returned \<and> formatter (run more s) = [] \<and>
                 futures (run more s) = [] \<and> submitted (run more s) = length ch \<or>
                 (\<exists>m. pc (run more s) = Thrown (Worker_failure m) \<and> Inl m \<in> set ch) \<or>
                 pc (run more s) = Thrown Ios_failure)"
proof -
  let ?tc = "pool_thread_count num_threads"
  let ?W = "3 * int (unat ?tc)"
  note range = pool_thread_count_range [OF assms(1)]
  note small = inflight_count_of_small [OF range(2)]
  have i: "inv ?W ch out (write_body_threads ?tc ch out any)" for any
    by (rule inv_write_body_threads [OF small])
  have inv: "inv ?W ch out s" unfolding assms(2) by (rule i)
  then have ctl: "inv_ctl ?W s" by (simp add: inv_def)
  then have 1: "inflight_count s = ?W" by (simp add: inv_ctl_def)
  from range(1) have pos: "1 \<le> ?W" by linarith
  then have pos': "0 < ?W" by linarith
  have 3: "futures s \<noteq> [] \<or> ((pc s = Prime_test \<or> pc s = Prime_body) \<and> batch_i s = 0)"
    if ne: "formatter s \<noteq> []"
  proof (cases "pc s")
    case Prime_test
    with ctl have "int (length (futures s)) = batch_i s" by (simp add: inv_ctl_def)
    with Prime_test show ?thesis by auto
  next
    case Prime_body
    with ctl have "int (length (futures s)) = batch_i s" by (simp add: inv_ctl_def)
    with Prime_body show ?thesis by auto
  next
    case Returned
    with ctl ne have "?W \<le> 0" by (simp add: inv_ctl_def)
    with pos show ?thesis by linarith
  next
    case (Thrown e)
    with ctl ne have "front_ready s \<or> length (futures s) = nat ?W"
      by (cases e) (simp_all add: inv_ctl_def window_ok_def)
    with pos show ?thesis by (auto simp: front_ready_def)
  next
    case Contract_violation
    with ctl show ?thesis by (simp add: inv_ctl_def)
  next
    case Undefined
    with ctl show ?thesis by (simp add: inv_ctl_def)
  qed (use ctl ne pos in \<open>auto simp: inv_ctl_def window_ok_def refilled_ok_def front_ready_def\<close>)
  have 4: "coordinator_steps_of sched < 20 * length ch + 9 + 3 * failed_polls s"
    if "\<not> terminal (pc s)"
    by (rule steps_bounded [OF small assms(2) that])
  have 5: "pc s = Returned \<and> formatter s = [] \<and> futures s = [] \<and> submitted s = length ch \<or>
            (\<exists>m. pc s = Thrown (Worker_failure m) \<and> Inl m \<in> set ch) \<or>
            pc s = Thrown Ios_failure"
    if "terminal (pc s)"
    by (rule ended_cases [OF inv pos' that])
  have 6: "\<exists>more. pc (run more s) = Returned \<and> formatter (run more s) = [] \<and>
                 futures (run more s) = [] \<and> submitted (run more s) = length ch \<or>
                 (\<exists>m. pc (run more s) = Thrown (Worker_failure m) \<and> Inl m \<in> set ch) \<or>
                 pc (run more s) = Thrown Ios_failure"
  proof -
    from can_finish [of s] obtain more where t: "terminal (pc (run more s))" by blast
    have "run more s = write_body_threads ?tc ch out (sched @ more)"
      unfolding assms(2) write_body_threads_def run_append ..
    then have "inv ?W ch out (run more s)" using i by simp
    from ended_cases [OF this pos' t] show ?thesis by blast
  qed
  show ?thesis
  proof (intro conjI impI)
    show "1 \<le> unat ?tc" by (rule range(1))
    show "inflight_count s = ?W" by (rule 1)
    show "1 \<le> inflight_count s" unfolding 1 by (rule pos)
    show "futures s \<noteq> [] \<or> ((pc s = Prime_test \<or> pc s = Prime_body) \<and> batch_i s = 0)"
      if "formatter s \<noteq> []"
      using that by (rule 3)
    show "coordinator_steps_of sched < 20 * length ch + 9 + 3 * failed_polls s"
      if "\<not> terminal (pc s)"
      using that by (rule 4)
    show "pc s = Returned \<and> formatter s = [] \<and> futures s = [] \<and> submitted s = length ch \<or>
            (\<exists>m. pc s = Thrown (Worker_failure m) \<and> Inl m \<in> set ch) \<or>
            pc s = Thrown Ios_failure"
      if "terminal (pc s)"
      using that by (rule 5)
    show "\<exists>more. pc (run more s) = Returned \<and> formatter (run more s) = [] \<and>
                 futures (run more s) = [] \<and> submitted (run more s) = length ch \<or>
                 (\<exists>m. pc (run more s) = Thrown (Worker_failure m) \<and> Inl m \<in> set ch) \<or>
                 pc (run more s) = Thrown Ios_failure"
      by (rule 6)
  qed
qed

theorem window_at_least_one_witness:
  "unat (0 :: 32 word) \<le> 715827882 \<and>
   unat (pool_thread_count 0) = 1 \<and>
   inflight_count (write_body_threads (pool_thread_count 0) chunks_ABCDE out0 sched_refill) = 3 \<and>
   formatter (write_body_threads (pool_thread_count 0) chunks_ABCDE out0 sched_refill) \<noteq> [] \<and>
   futures (write_body_threads (pool_thread_count 0) chunks_ABCDE out0 sched_refill) \<noteq> [] \<and>
   \<not> terminal (pc (write_body_threads (pool_thread_count 0) chunks_ABCDE out0 sched_refill)) \<and>
   coordinator_steps_of sched_refill <
     20 * length chunks_ABCDE + 9 +
     3 * failed_polls (write_body_threads (pool_thread_count 0) chunks_ABCDE out0 sched_refill) \<and>
   failed_polls (write_body_threads (pool_thread_count 0) chunks_ABCDE out0 sched_refill) = 0 \<and>
   terminal (pc (write_body_threads (pool_thread_count 0) chunks_ABCDE out0 sched_to_end)) \<and>
   pc (write_body_threads (pool_thread_count 0) chunks_ABCDE out0 sched_to_end) = Returned \<and>
   submitted (write_body_threads (pool_thread_count 0) chunks_ABCDE out0 sched_to_end) = 5"
proof -
  let ?s = "write_body_threads (pool_thread_count 0) chunks_ABCDE out0 sched_refill"
  let ?e = "write_body_threads (pool_thread_count 0) chunks_ABCDE out0 sched_to_end"
  have 1: "unat (0 :: 32 word) \<le> 715827882" by simp
  have 2: "unat (pool_thread_count 0) = 1" by (simp add: pool_thread_count_def)
  have 3: "formatter ?s \<noteq> []" by code_simp
  have 4: "pc ?s \<noteq> Prime_test" "pc ?s \<noteq> Prime_body" by code_simp+
  have 5: "\<not> terminal (pc ?s)" by code_simp
  have 6: "failed_polls ?s = 0" by code_simp
  note t = window_at_least_one [OF 1 refl, of chunks_ABCDE out0 sched_refill]
  from t 3 4 have 7: "futures ?s \<noteq> []" by blast
  from t 2 have 8: "inflight_count ?s = 3" by simp
  from t 5 have 9: "coordinator_steps_of sched_refill <
     20 * length chunks_ABCDE + 9 + 3 * failed_polls ?s"
    by blast
  have 10: "terminal (pc ?e)" by code_simp
  have 11: "\<forall>m. pc ?e \<noteq> Thrown (Worker_failure m)" "pc ?e \<noteq> Thrown Ios_failure"
  proof -
    have "pc ?e = Returned" by code_simp
    then show "\<forall>m. pc ?e \<noteq> Thrown (Worker_failure m)" "pc ?e \<noteq> Thrown Ios_failure"
      by simp_all
  qed
  note u = window_at_least_one [OF 1 refl, of chunks_ABCDE out0 sched_to_end]
  from u 10 11 have 12: "pc ?e = Returned \<and> submitted ?e = length chunks_ABCDE" by blast
  then have 13: "submitted ?e = 5" by (simp add: chunks_ABCDE_def)
  from 1 2 3 5 6 7 8 9 10 12 13 show ?thesis by blast
qed

text \<open>
  C6. In every run, a drain step that found the front complete asks \<^verbatim>\<open>has_next\<close>
  and, if the source has work, pulls and submits one work item before the front is
  retrieved, popped and written (the order of calls in the trace). The queue is in
  submission order, and the step of line 55 appends the new handle behind the front,
  which is still queued. So at every test of the drain loop the window is full as long
  as the source has work.
\<close>

theorem refill_before_pop:
  assumes "unat thread_count \<le> 715827882"
    and "s = write_body_threads thread_count ch out sched"
  shows "refills_first (trace s) \<and>
         map task_id (futures s) = [popped s ..< submitted s] \<and>
         (pc s = Refill_body \<longrightarrow>
            futures s \<noteq> [] \<and>
            (\<exists>c rest. formatter s = c # rest \<and>
               futures (coordinator s) = futures s @ [submit (submitted s) c] \<and>
               pc (coordinator s) = Get_front)) \<and>
         (pc s = Drain_test \<and> formatter s \<noteq> [] \<longrightarrow> length (futures s) = 3 * unat thread_count)"
proof -
  let ?W = "3 * int (unat thread_count)"
  have W: "inflight_count_of thread_count = Some ?W"
    by (rule inflight_count_of_small [OF assms(1)])
  have ctl0: "inv_ctl ?W (init thread_count ch out)" by (rule inv_ctl_init [OF W])
  have "inv_stage s"
    unfolding assms(2) write_body_threads_def by (rule inv_stage_run [OF inv_stage_init ctl0])
  then have 1: "refills_first (trace s)" by (simp add: refills_first_def inv_stage_def)
  have "inv ?W ch out s"
    unfolding assms(2) by (rule inv_write_body_threads [OF W])
  then have ctl: "inv_ctl ?W s" and q: "inv_queue ch s" by (simp_all add: inv_def)
  from q have 2: "map task_id (futures s) = [popped s ..< submitted s]"
    by (simp add: inv_queue_def)
  have n: "nat ?W = 3 * unat thread_count" by (rule nat_3_unat)
  have 3: "length (futures s) = 3 * unat thread_count"
    if "pc s = Drain_test \<and> formatter s \<noteq> []"
    using ctl that unfolding n [symmetric] by (simp add: inv_ctl_def window_ok_def)
  have 4: "futures s \<noteq> [] \<and>
            (\<exists>c rest. formatter s = c # rest \<and>
               futures (coordinator s) = futures s @ [submit (submitted s) c] \<and>
               pc (coordinator s) = Get_front)"
    if r: "pc s = Refill_body"
  proof -
    from ctl r have ne: "futures s \<noteq> []" by (auto simp: inv_ctl_def front_ready_def)
    from r have "pc s = Prime_body \<or> pc s = Refill_body" by simp
    with ctl obtain c rest where "formatter s = c # rest" and "coordinator s =
           s\<lparr>formatter := rest,
             futures := futures s @ [submit (submitted s) c],
             submitted := Suc (submitted s),
             trace := trace s @ [Next_chunk, Submit (submitted s)],
             batch_i := (if pc s = Prime_body then batch_i s + 1 else batch_i s),
             pc := (if pc s = Prime_body then Prime_test else Get_front)\<rparr>"
      by (rule coordinator_push)
    with r ne show ?thesis by simp
  qed
  from 1 2 3 4 show ?thesis by blast
qed

theorem refill_before_pop_witness:
  "unat (1 :: 32 word) \<le> 715827882 \<and>
   pc (write_body_threads 1 chunks_ABCDE out0 (coordinator_steps 7)) = Drain_test \<and>
   formatter (write_body_threads 1 chunks_ABCDE out0 (coordinator_steps 7)) \<noteq> [] \<and>
   length (futures (write_body_threads 1 chunks_ABCDE out0 (coordinator_steps 7))) = 3 \<and>
   pc (write_body_threads 1 chunks_ABCDE out0
         (coordinator_steps 8 @ [Worker_finishes 0] @ coordinator_steps 2)) = Refill_body \<and>
   pc (coordinator (write_body_threads 1 chunks_ABCDE out0
         (coordinator_steps 8 @ [Worker_finishes 0] @ coordinator_steps 2))) = Get_front \<and>
   refills_first (trace (write_body_threads 1 chunks_ABCDE out0 sched_refill))"
proof -
  let ?a = "write_body_threads 1 chunks_ABCDE out0 (coordinator_steps 7)"
  let ?b = "write_body_threads 1 chunks_ABCDE out0
         (coordinator_steps 8 @ [Worker_finishes 0] @ coordinator_steps 2)"
  have 1: "unat (1 :: 32 word) \<le> 715827882" by simp
  have 2: "pc ?a = Drain_test" by code_simp
  have 3: "formatter ?a \<noteq> []" by code_simp
  from refill_before_pop [OF 1 refl, of chunks_ABCDE out0 "coordinator_steps 7"] 2 3
  have "length (futures ?a) = 3 * unat (1 :: 32 word)" by blast
  then have 4: "length (futures ?a) = 3" by simp
  have 5: "pc ?b = Refill_body" by code_simp
  from refill_before_pop [OF 1 refl, of chunks_ABCDE out0
         "coordinator_steps 8 @ [Worker_finishes 0] @ coordinator_steps 2"] 5
  have 6: "pc (coordinator ?b) = Get_front" by blast
  from refill_before_pop [OF 1 refl, of chunks_ABCDE out0 sched_refill]
  have 7: "refills_first (trace (write_body_threads 1 chunks_ABCDE out0 sched_refill))"
    by blast
  from 1 2 3 4 5 6 7 show ?thesis by blast
qed

text \<open>
  C7. In every run the coordinator polls only the front of the queue: the handle asked
  is the one numbered by the count of handles popped so far, which is the front. After
  a poll that found it not ready the next call is the yield and the call after that a
  poll of the same handle: no submission, no removal and no write in between. In terms
  of the state: from the poll of a front that is not ready, three steps of the
  coordinator (poll, yield, loop test) lead back to the poll, and nothing but the trace
  has changed.
\<close>

theorem polls_only_the_front:
  assumes "s = write_body_threads thread_count ch out sched"
  shows "polls_front_only (trace s) \<and>
         (case futures s of [] \<Rightarrow> True | f # _ \<Rightarrow> task_id f = count_list (trace s) Pop) \<and>
         (pc s = Poll \<and> \<not> front_ready s \<longrightarrow>
            run [Coordinator, Coordinator, Coordinator] s =
              s\<lparr>trace := trace s @ [Is_ready (front_id s) False, Yield]\<rparr>)"
proof (cases "inflight_count_of thread_count")
  case None
  have "pc (init thread_count ch out) = Undefined" using None by (simp add: init_def)
  then have "terminal (pc (init thread_count ch out))" by (simp add: terminal_def)
  from run_terminal [OF this, of sched]
  have "map task_id (futures s) = []" "pc s = Undefined"
    by (simp_all add: assms write_body_threads_def same_but_ready_def init_def None)
  with trace_undefined [OF None, of ch out sched] show ?thesis
    by (simp add: polls_front_only_def assms)
next
  case (Some W)
  have "inv_poll s"
    unfolding assms write_body_threads_def
    by (rule inv_poll_run [OF inv_poll_init inv_init [OF Some]])
  then obtain x where m: "monitor poll_step (0, Anything) (trace s) = Some (popped s, x)"
    unfolding inv_poll_def by blast
  then have 1: "polls_front_only (trace s)" by (simp add: polls_front_only_def)
  from monitor_poll_count [OF m] have c: "popped s = count_list (trace s) Pop" by simp
  have "inv W ch out s" unfolding assms by (rule inv_write_body_threads [OF Some])
  then have q: "inv_queue ch s" and ctl: "inv_ctl W s" by (simp_all add: inv_def)
  have 2: "case futures s of [] \<Rightarrow> True | f # _ \<Rightarrow> task_id f = count_list (trace s) Pop"
  proof (cases "futures s")
    case Nil
    then show ?thesis by simp
  next
    case (Cons f rest)
    from inv_queue_front(1) [OF q Cons] c Cons show ?thesis by simp
  qed
  have 3: "run [Coordinator, Coordinator, Coordinator] s =
              s\<lparr>trace := trace s @ [Is_ready (front_id s) False, Yield]\<rparr>"
    if "pc s = Poll \<and> \<not> front_ready s"
    using that yield_and_poll_again [OF ctl] by blast
  from 1 2 3 show ?thesis by blast
qed

theorem polls_only_the_front_witness:
  "pc (write_body_threads 2 chunks_ABCDE out0 (coordinator_steps 12)) = Poll \<and>
   \<not> front_ready (write_body_threads 2 chunks_ABCDE out0 (coordinator_steps 12)) \<and>
   pc (run [Coordinator, Coordinator, Coordinator]
         (write_body_threads 2 chunks_ABCDE out0 (coordinator_steps 12))) = Poll \<and>
   futures (run [Coordinator, Coordinator, Coordinator]
         (write_body_threads 2 chunks_ABCDE out0 (coordinator_steps 12))) =
     futures (write_body_threads 2 chunks_ABCDE out0 (coordinator_steps 12)) \<and>
   polls_front_only (trace (write_body_threads 2 chunks_ABCDE out0 sched_ABCDE)) \<and>
   trace (write_body_threads 2 chunks_ABCDE out0 sched_ABCDE) =
     [Has_next True, Next_chunk, Submit 0, Has_next True, Next_chunk, Submit 1,
      Has_next True, Next_chunk, Submit 2, Has_next True, Next_chunk, Submit 3,
      Has_next True, Next_chunk, Submit 4, Has_next False,
      Is_ready 0 False, Yield, Is_ready 0 False, Yield,
      Is_ready 0 True, Has_next False, Get 0, Pop, Write ''A'',
      Is_ready 1 True, Has_next False, Get 1, Pop, Write ''B'',
      Is_ready 2 True, Has_next False, Get 2, Pop, Write ''C'',
      Is_ready 3 True, Has_next False, Get 3, Pop, Write ''D'',
      Is_ready 4 True, Has_next False, Get 4, Pop, Write ''E'']"
proof -
  let ?s = "write_body_threads 2 chunks_ABCDE out0 (coordinator_steps 12)"
  have 1: "pc ?s = Poll" by code_simp
  have 2: "\<not> front_ready ?s" by code_simp
  from polls_only_the_front [OF refl, of 2 chunks_ABCDE out0 "coordinator_steps 12"] 1 2
  have "run [Coordinator, Coordinator, Coordinator] ?s =
              ?s\<lparr>trace := trace ?s @ [Is_ready (front_id ?s) False, Yield]\<rparr>"
    by blast
  then have "pc (run [Coordinator, Coordinator, Coordinator] ?s) =
      pc (?s\<lparr>trace := trace ?s @ [Is_ready (front_id ?s) False, Yield]\<rparr>)"
    and "futures (run [Coordinator, Coordinator, Coordinator] ?s) =
      futures (?s\<lparr>trace := trace ?s @ [Is_ready (front_id ?s) False, Yield]\<rparr>)"
    by (rule arg_cong)+
  then have 3: "pc (run [Coordinator, Coordinator, Coordinator] ?s) = Poll"
    and 4: "futures (run [Coordinator, Coordinator, Coordinator] ?s) = futures ?s"
    using 1 by simp_all
  have 5: "polls_front_only (trace (write_body_threads 2 chunks_ABCDE out0 sched_ABCDE))"
    using polls_only_the_front [OF refl, of 2 chunks_ABCDE out0 sched_ABCDE] by blast
  have 6: "trace (write_body_threads 2 chunks_ABCDE out0 sched_ABCDE) =
     [Has_next True, Next_chunk, Submit 0, Has_next True, Next_chunk, Submit 1,
      Has_next True, Next_chunk, Submit 2, Has_next True, Next_chunk, Submit 3,
      Has_next True, Next_chunk, Submit 4, Has_next False,
      Is_ready 0 False, Yield, Is_ready 0 False, Yield,
      Is_ready 0 True, Has_next False, Get 0, Pop, Write ''A'',
      Is_ready 1 True, Has_next False, Get 1, Pop, Write ''B'',
      Is_ready 2 True, Has_next False, Get 2, Pop, Write ''C'',
      Is_ready 3 True, Has_next False, Get 3, Pop, Write ''D'',
      Is_ready 4 True, Has_next False, Get 4, Pop, Write ''E'']"
    by code_simp
  from 1 2 3 4 5 6 show ?thesis by blast
qed

text \<open>
  C8. In every run each call of \<^verbatim>\<open>next_chunk\<close> comes right after a call of
  \<^verbatim>\<open>has_next\<close> that returned true, with no call in between; the contract violation
  of the source is never reached.
\<close>

theorem next_chunk_only_after_has_next:
  "guarded (trace (write_body_threads thread_count ch out sched)) \<and>
   pc (write_body_threads thread_count ch out sched) \<noteq> Contract_violation"
proof (cases "inflight_count_of thread_count")
  case None
  from trace_undefined [OF None] undefined_write_body_threads [OF None]
  show ?thesis by (simp add: guarded_def)
next
  case (Some W)
  have ctl0: "inv_ctl W (init thread_count ch out)" by (rule inv_ctl_init [OF Some])
  have "inv_guard (run sched (init thread_count ch out))"
    by (rule inv_guard_run [OF inv_guard_init ctl0])
  moreover have "inv_ctl W (run sched (init thread_count ch out))"
    by (rule inv_ctl_run [OF ctl0])
  ultimately show ?thesis
    by (auto simp: write_body_threads_def guarded_def inv_guard_def inv_ctl_def)
qed

theorem next_chunk_only_after_has_next_witness:
  "guarded (trace (write_body_threads 1 [Inr ''A'', Inr ''B''] out0 sched_two)) \<and>
   trace (write_body_threads 1 [Inr ''A'', Inr ''B''] out0 sched_two) =
     [Has_next True, Next_chunk, Submit 0, Has_next True, Next_chunk, Submit 1, Has_next False,
      Is_ready 0 True, Has_next False, Get 0, Pop, Write ''A'',
      Is_ready 1 True, Has_next False, Get 1, Pop, Write ''B''] \<and>
   pc (write_body_threads 1 [Inr ''A'', Inr ''B''] out0 sched_two) = Returned"
proof -
  have "guarded (trace (write_body_threads 1 [Inr ''A'', Inr ''B''] out0 sched_two))"
    using next_chunk_only_after_has_next [of 1 "[Inr ''A'', Inr ''B'']" out0 sched_two]
    by blast
  moreover have "trace (write_body_threads 1 [Inr ''A'', Inr ''B''] out0 sched_two) =
     [Has_next True, Next_chunk, Submit 0, Has_next True, Next_chunk, Submit 1, Has_next False,
      Is_ready 0 True, Has_next False, Get 0, Pop, Write ''A'',
      Is_ready 1 True, Has_next False, Get 1, Pop, Write ''B'']"
    by code_simp
  moreover have "pc (write_body_threads 1 [Inr ''A'', Inr ''B''] out0 sched_two) = Returned"
    by code_simp
  ultimately show ?thesis by blast
qed

text \<open>
  C9. In every run the Pending Queue never holds more than \<open>3 \<times> worker_count + 1\<close>
  handles, and it holds that many only between the push of the refill handle (line 55)
  and the pop of the completed front handle (line 60): at line 59 or 60, or when
  \<^verbatim>\<open>get\<close> on line 59 has raised and ended the call before the pop.
\<close>

theorem pending_queue_bound:
  assumes "unat thread_count \<le> 715827882"
    and "s = write_body_threads thread_count ch out sched"
  shows "length (futures s) \<le> 3 * unat thread_count + 1 \<and>
         (length (futures s) = 3 * unat thread_count + 1 \<longrightarrow>
            pc s = Get_front \<or> pc s = Pop_front \<or> (\<exists>m. pc s = Thrown (Worker_failure m)))"
proof -
  let ?W = "3 * int (unat thread_count)"
  have "inv ?W ch out s"
    unfolding assms(2)
    by (rule inv_write_body_threads) (rule inflight_count_of_small [OF assms(1)])
  then have ctl: "inv_ctl ?W s" by (simp add: inv_def)
  have n: "nat ?W = 3 * unat thread_count" by (rule nat_3_unat)
  from inv_ctl_length(1,2) [OF ctl] show ?thesis
    unfolding n by blast
qed

theorem pending_queue_bound_witness:
  "unat (1 :: 32 word) \<le> 715827882 \<and>
   length (futures (write_body_threads 1 chunks_ABCDE out0 sched_refill)) = 3 * unat (1 :: 32 word) + 1 \<and>
   pc (write_body_threads 1 chunks_ABCDE out0 sched_refill) = Get_front"
proof -
  let ?s = "write_body_threads 1 chunks_ABCDE out0 sched_refill"
  have 1: "unat (1 :: 32 word) \<le> 715827882" by simp
  have 2: "length (futures ?s) = 3 * unat (1 :: 32 word) + 1" by code_simp
  have 3: "pc ?s = Get_front" by code_simp
  from pending_queue_bound [OF 1 refl, of chunks_ABCDE out0 sched_refill] 2
  have "pc ?s = Get_front \<or> pc ?s = Pop_front \<or> (\<exists>m. pc ?s = Thrown (Worker_failure m))"
    by blast
  with 1 2 3 show ?thesis by blast
qed

text \<open>
  C10. If the pool reports a thread count of 0, the window is 0 and
  \<^verbatim>\<open>write_body_threads\<close> returns at once: under every schedule the source is never
  asked (\<^verbatim>\<open>has_next\<close> and \<^verbatim>\<open>next_chunk\<close> would show in the trace), nothing is
  submitted, the stream is untouched even if the source has work, and the second step of
  the coordinator is the return.
\<close>

theorem zero_threads_returns_at_once:
  "let s = write_body_threads 0 ch out sched
   in trace s = [] \<and> os s = out \<and> formatter s = ch \<and> futures s = [] \<and> submitted s = 0 \<and>
      (2 \<le> count_list sched Coordinator \<longrightarrow> pc s = Returned)"
proof -
  have w: "inflight_count_of 0 = Some 0"
    by (simp add: inflight_count_of_def INT_MIN_def INT_MAX_def)
  let ?s = "init 0 ch out"
  have "run sched ?s =
           (if count_list sched Coordinator = 0 then ?s
            else if count_list sched Coordinator = 1 then ?s\<lparr>pc := Drain_test\<rparr>
            else ?s\<lparr>pc := Returned\<rparr>)"
    by (rule run_Prime_test_empty) (simp_all add: init_def w)
  then show ?thesis
    by (simp add: write_body_threads_def Let_def init_def w)
qed

theorem zero_threads_returns_at_once_witness:
  "2 \<le> count_list [Coordinator, Coordinator] Coordinator \<and>
   pc (write_body_threads 0 [Inr ''A''] out0 [Coordinator, Coordinator]) = Returned \<and>
   written (os (write_body_threads 0 [Inr ''A''] out0 [Coordinator, Coordinator])) = [] \<and>
   trace (write_body_threads 0 [Inr ''A''] out0 [Coordinator, Coordinator]) = []"
  using zero_threads_returns_at_once [of "[Inr ''A'']" out0 "[Coordinator, Coordinator]"]
  by (simp add: Let_def out0_def)

end
